theory Spec2Isabelle
  imports Main "HOL-Library.Multiset"
begin

section \<open>Data model of the pin store (package pinstore)\<close>

text \<open>
  A \<open>cid.Cid\<close> and an \<open>ffs.APIID\<close> are opaque comparable values; both are strings in
  the Go code. \<open>Pin\<close> is the struct of the same name; \<open>CreatedAt\<close> is an \<open>int64\<close> holding
  Unix seconds, which the code only stores and compares, so it is an \<open>int\<close> here.
\<close>

type_synonym cid = string
type_synonym apiid = string
type_synonym addr = nat

record Pin =
  APIID :: apiid
  Staged :: bool
  CreatedAt :: int

text \<open>
  A Go slice is a header (pointer to a backing array, length, capacity); copying a
  \<open>PinnedCid\<close> copies the header and shares the array. The backing arrays live in a
  heap, a map from addresses to arrays. The nil slice has length and capacity 0.
\<close>

record slice =
  arr :: addr
  len :: nat
  cap :: nat

record PinnedCid =
  Cid :: cid
  Pins :: slice

text \<open>
  The \<open>Store\<close>: \<open>ds\<close> is the datastore (under the key of a Cid, the marshalled entry:
  the Cid and the pins the slice held when it was marshalled), \<open>cache\<close> is the Go map
  \<open>map[cid.Cid]PinnedCid\<close>, \<open>heap\<close> and \<open>nextaddr\<close> are the memory holding the backing
  arrays of the slices and its allocation pointer.
\<close>

record Store =
  ds :: "cid \<rightharpoonup> cid \<times> Pin list"
  cache :: "cid \<rightharpoonup> PinnedCid"
  heap :: "addr \<Rightarrow> Pin list"
  nextaddr :: addr

text \<open>
  What one call takes from its environment: the clock (\<open>time.Now().Unix()\<close>), whether
  \<open>json.Marshal\<close>, \<open>ds.Put\<close> and \<open>ds.Delete\<close> succeed, and the capacity the runtime
  picks when \<open>append\<close> has to allocate (raised to the needed length when smaller).
\<close>

record env =
  now :: int
  marshal_ok :: bool
  put_ok :: bool
  delete_ok :: bool
  grow :: nat

text \<open>The errors of the package, one constructor for each \<open>fmt.Errorf\<close> of the source.\<close>

datatype error =
    NotPinned              \<comment> \<open>"c1 isn't pinned"\<close>
  | NotAllStaged           \<comment> \<open>"all pins should be stage type"\<close>
  | MarshalFailed          \<comment> \<open>"marshaling to datastore"\<close>
  | PutFailed              \<comment> \<open>"put in datastore"\<close>
  | DeleteFailed           \<comment> \<open>"deleting from datastore"\<close>
  | GetStagedPins error    \<comment> \<open>"get staged pins"\<close>
  | GettingCandidates error \<comment> \<open>"getting gc cid candidates"\<close>
  | NotOnlyStagePins cid int int \<comment> \<open>"cid hasn't only stage-pins, total, staged"\<close>
  | NodeUnpinFailed        \<comment> \<open>"unpinning cid from ipfs node" (in unpinStaged)\<close>
  | RemovingStaged cid error \<comment> \<open>"removing all staged pins for"\<close>
  | UnpinningCid error     \<comment> \<open>"unpinning cid from ipfs node" (in GCStaged)\<close>

subsection \<open>Slices\<close>

definition nil_slice :: slice where
  "nil_slice = \<lparr>arr = 0, len = 0, cap = 0\<rparr>"

definition zero_Pin :: Pin where
  "zero_Pin = \<lparr>APIID = [], Staged = False, CreatedAt = 0\<rparr>"

text \<open>The elements a slice denotes: the first \<open>len\<close> cells of its backing array.\<close>

definition elems :: "(addr \<Rightarrow> Pin list) \<Rightarrow> slice \<Rightarrow> Pin list" where
  "elems h sl = take (len sl) (h (arr sl))"

text \<open>\<open>sl[i] = p\<close>: a write into the backing array, seen by every slice sharing it.\<close>

definition store_at :: "Store \<Rightarrow> slice \<Rightarrow> nat \<Rightarrow> Pin \<Rightarrow> Store" where
  "store_at s sl i p = s\<lparr>heap := (heap s)(arr sl := (heap s (arr sl))[i := p])\<rparr>"

text \<open>
  \<open>append(sl, p)\<close>: with spare capacity the element is written into the shared array
  and only the returned header is longer; otherwise a new array is allocated and the
  elements copied.
\<close>

definition append_slice :: "env \<Rightarrow> Store \<Rightarrow> slice \<Rightarrow> Pin \<Rightarrow> slice \<times> Store" where
  "append_slice e s sl p =
     (if len sl < cap sl
      then (sl\<lparr>len := len sl + 1\<rparr>, store_at s sl (len sl) p)
      else
        let n = max (len sl + 1) (grow e); a = nextaddr s
        in (\<lparr>arr = a, len = len sl + 1, cap = n\<rparr>,
            s\<lparr>heap := (heap s)(a := elems (heap s) sl @ p # replicate (n - (len sl + 1)) zero_Pin),
              nextaddr := a + 1\<rparr>))"

text \<open>
  The loop \<open>for i, p := range r.Pins { if p.APIID == iid { ... break/return } }\<close>: the
  index of the first pin of \<open>iid\<close>.
\<close>

fun find_idx :: "apiid \<Rightarrow> Pin list \<Rightarrow> nat option" where
  "find_idx iid [] = None"
| "find_idx iid (p # rest) = (if APIID p = iid then Some 0 else map_option Suc (find_idx iid rest))"

text \<open>The loop \<open>for _, p := range pins { if !p.Staged { ... } }\<close>: is every pin staged.\<close>

fun all_staged :: "Pin list \<Rightarrow> bool" where
  "all_staged [] = True"
| "all_staged (p # rest) = (if \<not> Staged p then False else all_staged rest)"

subsection \<open>The operations of \<open>Store\<close>\<close>

text \<open>\<open>if cr, ok := s.cache[c]; ok { r = cr } else { r = PinnedCid{Cid: c} }\<close>\<close>

definition load :: "Store \<Rightarrow> cid \<Rightarrow> PinnedCid" where
  "load s c = (case cache s c of Some cr \<Rightarrow> cr | None \<Rightarrow> \<lparr>Cid = c, Pins = nil_slice\<rparr>)"

text \<open>
  \<open>persist\<close> marshals the entry (the pins its slice holds at that moment), puts it in
  the datastore and only then assigns the cache. \<open>json.Marshal\<close> has no failing case for
  this struct; its error branch is kept, decided by the environment.
\<close>

definition marshal :: "(addr \<Rightarrow> Pin list) \<Rightarrow> PinnedCid \<Rightarrow> cid \<times> Pin list" where
  "marshal h r = (Cid r, elems h (Pins r))"

definition persist :: "env \<Rightarrow> PinnedCid \<Rightarrow> Store \<Rightarrow> error option \<times> Store" where
  "persist e r s =
     (if \<not> marshal_ok e then (Some MarshalFailed, s)
      else if \<not> put_ok e then (Some PutFailed, s)
      else (None, s\<lparr>ds := (ds s)(Cid r \<mapsto> marshal (heap s) r),
                     cache := (cache s)(Cid r \<mapsto> r)\<rparr>))"

text \<open>
  \<open>AddStaged\<close>, \<open>Add\<close> and \<open>Remove\<close> work on \<open>r\<close>, a copy of the entry of the cache:
  the copy has its own slice header and shares the backing array, so a write to
  \<open>r.Pins[i]\<close> is a write to the cached entry, while \<open>append\<close> and re-slicing change
  the header of \<open>r\<close> only.
\<close>

definition AddStaged :: "env \<Rightarrow> apiid \<Rightarrow> cid \<Rightarrow> Store \<Rightarrow> error option \<times> Store" where
  "AddStaged e iid c s =
     (let r = load s c in
      case find_idx iid (elems (heap s) (Pins r)) of
        Some i \<Rightarrow>
          let p = heap s (arr (Pins r)) ! i in
          if \<not> Staged p then (None, s)
          else persist e r (store_at s (Pins r) i (p\<lparr>CreatedAt := now e\<rparr>))
      | None \<Rightarrow>
          let p = \<lparr>APIID = iid, Staged = True, CreatedAt = now e\<rparr>;
              (sl, s1) = append_slice e s (Pins r) p
          in persist e (r\<lparr>Pins := sl\<rparr>) s1)"

definition Add :: "env \<Rightarrow> apiid \<Rightarrow> cid \<Rightarrow> Store \<Rightarrow> error option \<times> Store" where
  "Add e iid c s =
     (let r = load s c;
          v = \<lparr>APIID = iid, Staged = False, CreatedAt = now e\<rparr>
      in case find_idx iid (elems (heap s) (Pins r)) of
        Some i \<Rightarrow> persist e r (store_at s (Pins r) i v)
      | None \<Rightarrow>
          let (sl, s1) = append_slice e s (Pins r) zero_Pin
          in persist e (r\<lparr>Pins := sl\<rparr>) (store_at s1 sl (len sl - 1) v))"

text \<open>\<open>RefCount\<close>: the length of the slice, and the loop counting the staged pins.\<close>

fun count_staged :: "Pin list \<Rightarrow> int" where
  "count_staged [] = 0"
| "count_staged (p # rest) = (if Staged p then 1 + count_staged rest else count_staged rest)"

definition RefCount :: "Store \<Rightarrow> cid \<Rightarrow> int \<times> int" where
  "RefCount s c =
     (case cache s c of
        None \<Rightarrow> (0, 0)
      | Some r \<Rightarrow> (int (len (Pins r)), count_staged (elems (heap s) (Pins r))))"

definition IsPinnedBy :: "Store \<Rightarrow> apiid \<Rightarrow> cid \<Rightarrow> bool" where
  "IsPinnedBy s iid c =
     (case cache s c of
        None \<Rightarrow> False
      | Some r \<Rightarrow> (case find_idx iid (elems (heap s) (Pins r)) of Some i \<Rightarrow> True | None \<Rightarrow> False))"

definition IsPinned :: "Store \<Rightarrow> cid \<Rightarrow> bool" where
  "IsPinned s c = (case cache s c of None \<Rightarrow> False | Some r \<Rightarrow> True)"

text \<open>
  \<open>Remove\<close>: \<open>r.Pins[c1idx] = r.Pins[len(r.Pins)-1]\<close>, then \<open>r.Pins = r.Pins[:len(r.Pins)-1]\<close>.
\<close>

definition Remove :: "env \<Rightarrow> apiid \<Rightarrow> cid \<Rightarrow> Store \<Rightarrow> error option \<times> Store" where
  "Remove e iid c s =
     (case cache s c of
        None \<Rightarrow> (Some NotPinned, s)
      | Some r \<Rightarrow>
          (case find_idx iid (elems (heap s) (Pins r)) of
             None \<Rightarrow> (None, s)
           | Some c1idx \<Rightarrow>
               let sl = Pins r;
                   s1 = store_at s sl c1idx (heap s (arr sl) ! (len sl - 1))
               in persist e (r\<lparr>Pins := sl\<lparr>len := len sl - 1\<rparr>\<rparr>) s1))"

text \<open>
  \<open>RemoveStaged\<close>: after \<open>ds.Delete\<close> the source executes \<open>s.cache[c] = pc1\<close>.
\<close>

definition RemoveStaged :: "env \<Rightarrow> cid \<Rightarrow> Store \<Rightarrow> error option \<times> Store" where
  "RemoveStaged e c s =
     (case cache s c of
        None \<Rightarrow> (Some NotPinned, s)
      | Some pc1 \<Rightarrow>
          if \<not> all_staged (elems (heap s) (Pins pc1)) then (Some NotAllStaged, s)
          else if \<not> delete_ok e then (Some DeleteFailed, s)
          else (None, s\<lparr>ds := (ds s)(c := None), cache := (cache s)(c \<mapsto> pc1)\<rparr>))"

text \<open>
  \<open>for _, v := range s.cache\<close> visits the entries in an order the runtime chooses; the
  order is the parameter \<open>order\<close>, a list of the keys of the cache.
\<close>

fun only_staged :: "Store \<Rightarrow> cid list \<Rightarrow> PinnedCid list" where
  "only_staged s [] = []"
| "only_staged s (k # ks) =
     (case cache s k of
        None \<Rightarrow> only_staged s ks
      | Some v \<Rightarrow>
          if all_staged (elems (heap s) (Pins v)) then v # only_staged s ks
          else only_staged s ks)"

definition GetAllOnlyStaged :: "cid list \<Rightarrow> Store \<Rightarrow> PinnedCid list \<times> error option" where
  "GetAllOnlyStaged order s = (only_staged s order, None)"

text \<open>\<open>New\<close> on an empty datastore: \<open>populateCache\<close> returns an empty map.\<close>

definition empty_store :: Store where
  "empty_store = \<lparr>ds = Map.empty, cache = Map.empty, heap = (\<lambda>a. []), nextaddr = 0\<rparr>"

section \<open>The staged-pin garbage collector (package coreipfs)\<close>

text \<open>
  \<open>CoreIpfs\<close> holds the pin store and the client of the IPFS node. Of the node, the
  model keeps the \<open>Pin().Rm\<close> requests sent to it, in order; whether a request
  succeeds is the node's answer, taken from the environment of the call, as are the
  order in which the cache is ranged over and the environment of each store call.
\<close>

record CoreIpfs =
  ps :: Store
  ipfs :: "cid list"

record gcenv =
  range_order :: "cid list"
  rm_ok :: "cid \<Rightarrow> bool"
  store_env :: "cid \<Rightarrow> env"

text \<open>The inner loop of \<open>getGCCandidates\<close>: some pin has \<open>CreatedAt > olderThan.Unix()\<close>.\<close>

fun too_recent :: "int \<Rightarrow> Pin list \<Rightarrow> bool" where
  "too_recent t [] = False"
| "too_recent t (sp # sps) = (if CreatedAt sp > t then True else too_recent t sps)"

fun scan_candidates :: "(addr \<Rightarrow> Pin list) \<Rightarrow> cid list \<Rightarrow> int \<Rightarrow> PinnedCid list \<Rightarrow> cid list" where
  "scan_candidates h exclude t [] = []"
| "scan_candidates h exclude t (stagedPin # lst) =
     (if Cid stagedPin \<in> set exclude then scan_candidates h exclude t lst
      else if too_recent t (elems h (Pins stagedPin)) then scan_candidates h exclude t lst
      else Cid stagedPin # scan_candidates h exclude t lst)"

definition getGCCandidates :: "gcenv \<Rightarrow> cid list \<Rightarrow> int \<Rightarrow> CoreIpfs \<Rightarrow> cid list \<times> error option" where
  "getGCCandidates g exclude olderThan ci =
     (case GetAllOnlyStaged (range_order g) (ps ci) of
        (lst, Some err) \<Rightarrow> ([], Some (GetStagedPins err))
      | (lst, None) \<Rightarrow> (scan_candidates (heap (ps ci)) exclude olderThan lst, None))"

definition unpinStaged :: "gcenv \<Rightarrow> cid \<Rightarrow> CoreIpfs \<Rightarrow> error option \<times> CoreIpfs" where
  "unpinStaged g c ci =
     (case RefCount (ps ci) c of
        (cnt, stagedCount) \<Rightarrow>
          if cnt \<noteq> stagedCount then (Some (NotOnlyStagePins c cnt stagedCount), ci)
          else
            let ci1 = ci\<lparr>ipfs := ipfs ci @ [c]\<rparr> in
            if \<not> rm_ok g c then (Some NodeUnpinFailed, ci1)
            else
              (case RemoveStaged (store_env g c) c (ps ci1) of
                 (Some err, st) \<Rightarrow> (Some (RemovingStaged c err), ci1\<lparr>ps := st\<rparr>)
               | (None, st) \<Rightarrow> (None, ci1\<lparr>ps := st\<rparr>)))"

text \<open>The loop of \<open>GCStaged\<close> over the candidates, leaving at the first error.\<close>

fun unpin_all :: "gcenv \<Rightarrow> cid list \<Rightarrow> CoreIpfs \<Rightarrow> error option \<times> CoreIpfs" where
  "unpin_all g [] ci = (None, ci)"
| "unpin_all g (c # cs) ci =
     (case unpinStaged g c ci of
        (Some err, ci') \<Rightarrow> (Some err, ci')
      | (None, ci') \<Rightarrow> unpin_all g cs ci')"

text \<open>
  \<open>GCStaged\<close> returns a slice of Cids and an error; the nil slice is the empty list.
\<close>

definition GCStaged :: "gcenv \<Rightarrow> cid list \<Rightarrow> int \<Rightarrow> CoreIpfs \<Rightarrow> (cid list \<times> error option) \<times> CoreIpfs" where
  "GCStaged g exclude olderThan ci =
     (case getGCCandidates g exclude olderThan ci of
        (unpinLst, Some err) \<Rightarrow> (([], Some (GettingCandidates err)), ci)
      | (unpinLst, None) \<Rightarrow>
          (case unpin_all g unpinLst ci of
             (Some err, ci') \<Rightarrow> (([], Some (UnpinningCid err)), ci')
           | (None, ci') \<Rightarrow> ((unpinLst, None), ci')))"

section \<open>Ledger states\<close>

text \<open>
  The pins an entry holds, as every reader of the cache sees them (the empty list when
  the Cid has no entry), and the well-formedness of the memory: an entry is stored under
  its own Cid, a slice lies within its backing array, and two entries never share one.
\<close>

definition entry_pins :: "Store \<Rightarrow> cid \<Rightarrow> Pin list" where
  "entry_pins s c = elems (heap s) (Pins (load s c))"

definition owns :: "Store \<Rightarrow> cid \<Rightarrow> slice \<Rightarrow> bool" where
  "owns s c sl \<longleftrightarrow>
     len sl \<le> cap sl \<and>
     (0 < cap sl \<longrightarrow>
        arr sl < nextaddr s \<and> length (heap s (arr sl)) = cap sl \<and>
        (\<forall>c' r'. c' \<noteq> c \<and> cache s c' = Some r' \<and> 0 < cap (Pins r') \<longrightarrow> arr (Pins r') \<noteq> arr sl))"

definition wf_store :: "Store \<Rightarrow> bool" where
  "wf_store s \<longleftrightarrow> (\<forall>c r. cache s c = Some r \<longrightarrow> Cid r = c \<and> owns s c (Pins r))"

text \<open>
  The states a ledger goes through: it starts empty, and every call of a mutating
  operation, whatever its environment and whether it succeeds or fails, leads to the
  next state.
\<close>

inductive reachable :: "Store \<Rightarrow> bool" where
  r_init: "reachable empty_store"
| r_AddStaged: "reachable s \<Longrightarrow> reachable (snd (AddStaged e iid c s))"
| r_Add: "reachable s \<Longrightarrow> reachable (snd (Add e iid c s))"
| r_Remove: "reachable s \<Longrightarrow> reachable (snd (Remove e iid c s))"
| r_RemoveStaged: "reachable s \<Longrightarrow> reachable (snd (RemoveStaged e c s))"

text \<open>
  The ledger as its readers see it: under each Cid of the cache, the pins its entry
  holds. \<open>persist_err\<close> is the error \<open>persist\<close> returns in an environment.
\<close>

definition ledger :: "Store \<Rightarrow> cid \<rightharpoonup> Pin list" where
  "ledger s c = (case cache s c of None \<Rightarrow> None | Some r \<Rightarrow> Some (elems (heap s) (Pins r)))"

definition persist_err :: "env \<Rightarrow> error option" where
  "persist_err e =
     (if \<not> marshal_ok e then Some MarshalFailed else if \<not> put_ok e then Some PutFailed else None)"

text \<open>The invariant of an entry: at most one pin for each tenant.\<close>

definition one_pin_per_tenant :: "Store \<Rightarrow> bool" where
  "one_pin_per_tenant s \<longleftrightarrow> (\<forall>c xs. ledger s c = Some xs \<longrightarrow> distinct (map APIID xs))"

subsection \<open>Environments and states of the example runs\<close>

definition env_ok :: "int \<Rightarrow> env" where
  "env_ok t = \<lparr>now = t, marshal_ok = True, put_ok = True, delete_ok = True, grow = 0\<rparr>"

definition env_put_fails :: "int \<Rightarrow> env" where
  "env_put_fails t = \<lparr>now = t, marshal_ok = True, put_ok = False, delete_ok = True, grow = 0\<rparr>"

text \<open>Tenant A stages c at time 1; then tenant B pins c at time 2.\<close>

definition st_A :: Store where
  "st_A = snd (AddStaged (env_ok 1) ''A'' ''c'' empty_store)"

definition st_AB :: Store where
  "st_AB = snd (Add (env_ok 2) ''B'' ''c'' st_A)"

text \<open>Tenant A stages c and removes its pin again: the entry of c is left without pins.\<close>

definition st_E :: Store where
  "st_E = snd (Remove (env_ok 3) ''A'' ''c'' st_A)"

text \<open>Tenant A stages c1 and c2 at time 1; environments of a garbage collection.\<close>

definition st_2 :: Store where
  "st_2 = snd (AddStaged (env_ok 1) ''A'' ''c2'' (snd (AddStaged (env_ok 1) ''A'' ''c1'' empty_store)))"

definition ci_2 :: CoreIpfs where
  "ci_2 = \<lparr>ps = st_2, ipfs = []\<rparr>"

definition gc_ok :: "cid list \<Rightarrow> gcenv" where
  "gc_ok order = \<lparr>range_order = order, rm_ok = (\<lambda>c. True), store_env = (\<lambda>c. env_ok 9)\<rparr>"

definition gc_rm_fails :: "cid list \<Rightarrow> cid \<Rightarrow> gcenv" where
  "gc_rm_fails order bad = \<lparr>range_order = order, rm_ok = (\<lambda>c. c \<noteq> bad), store_env = (\<lambda>c. env_ok 9)\<rparr>"

definition env_delete_fails :: "int \<Rightarrow> env" where
  "env_delete_fails t = \<lparr>now = t, marshal_ok = True, put_ok = True, delete_ok = False, grow = 0\<rparr>"

definition gc_delete_fails :: "cid list \<Rightarrow> cid \<Rightarrow> gcenv" where
  "gc_delete_fails order bad =
     \<lparr>range_order = order, rm_ok = (\<lambda>c. True),
      store_env = (\<lambda>c. if c = bad then env_delete_fails 9 else env_ok 9)\<rparr>"

section \<open>Slices, memory and the cache\<close>

lemma count_staged_le: "count_staged xs \<le> int (length xs)"
  by (induction xs) auto

lemma find_idx_Some: "find_idx iid xs = Some i \<Longrightarrow> i < length xs \<and> APIID (xs ! i) = iid"
  by (induction xs arbitrary: i) (auto split: if_splits)

lemma find_idx_None: "find_idx iid xs = None \<longleftrightarrow> iid \<notin> APIID ` set xs"
  by (induction xs) auto

lemma all_staged_iff: "all_staged xs \<longleftrightarrow> (\<forall>p \<in> set xs. Staged p)"
  by (induction xs) auto

lemma elems_other: "arr sl \<noteq> a \<Longrightarrow> elems (h(a := x)) sl = elems h sl"
  by (simp add: elems_def)

lemma elems_beyond: "len sl \<le> i \<Longrightarrow> elems (h(arr sl := (h (arr sl))[i := p])) sl = elems h sl"
  by (simp add: elems_def)

lemma elems_within: "elems (h(arr sl := (h (arr sl))[i := p])) sl = (elems h sl)[i := p]"
  by (simp add: elems_def take_update_swap)

lemma elems_empty: "len sl = 0 \<Longrightarrow> elems h sl = []"
  by (simp add: elems_def)

lemma elems_nth: "i < length (elems h sl) \<Longrightarrow> h (arr sl) ! i = elems h sl ! i"
  by (simp add: elems_def)

lemma wf_empty: "wf_store empty_store"
  by (simp add: wf_store_def empty_store_def)

lemma entry_pins_ledger: "entry_pins s c = (case ledger s c of None \<Rightarrow> [] | Some xs \<Rightarrow> xs)"
  by (simp add: entry_pins_def ledger_def load_def nil_slice_def elems_def split: option.splits)

lemma owns_load: "wf_store s \<Longrightarrow> owns s c (Pins (load s c))"
  by (auto simp: wf_store_def load_def owns_def nil_slice_def split: option.splits)

lemma Cid_load: "wf_store s \<Longrightarrow> Cid (load s c) = c"
  by (auto simp: wf_store_def load_def split: option.splits)

lemma owns_length: "owns s c sl \<Longrightarrow> length (elems (heap s) sl) = len sl"
  by (cases "cap sl = 0") (auto simp: owns_def elems_def)

lemma persist_result: "fst (persist e r s) = persist_err e"
  by (simp add: persist_def persist_err_def)

lemma persist_fail: "persist_err e \<noteq> None \<Longrightarrow> snd (persist e r s) = s"
  by (simp add: persist_def persist_err_def split: if_splits)

lemma persist_ok:
  "persist_err e = None \<Longrightarrow>
   snd (persist e r s) = s\<lparr>ds := (ds s)(Cid r \<mapsto> (Cid r, elems (heap s) (Pins r))), cache := (cache s)(Cid r \<mapsto> r)\<rparr>"
  by (simp add: persist_def persist_err_def marshal_def split: if_splits)

lemma wf_storeD: "wf_store s \<Longrightarrow> cache s c = Some r \<Longrightarrow> Cid r = c \<and> owns s c (Pins r)"
  by (simp add: wf_store_def)

lemma owns_leD: "owns s c sl \<Longrightarrow> len sl \<le> cap sl"
  by (simp add: owns_def)

lemma owns_freshD: "owns s c sl \<Longrightarrow> 0 < cap sl \<Longrightarrow> arr sl < nextaddr s \<and> length (heap s (arr sl)) = cap sl"
  by (simp add: owns_def)

lemma owns_sepD:
  "owns s c sl \<Longrightarrow> 0 < cap sl \<Longrightarrow> c' \<noteq> c \<Longrightarrow> cache s c' = Some r' \<Longrightarrow> 0 < cap (Pins r')
   \<Longrightarrow> arr (Pins r') \<noteq> arr sl"
  unfolding owns_def by blast

text \<open>Storing an entry whose slice the Cid owns keeps the memory well formed.\<close>

lemma wf_install:
  assumes w: "wf_store s" and o: "owns s c (Pins r)" and k: "Cid r = c"
  shows "wf_store (s\<lparr>ds := d, cache := (cache s)(c \<mapsto> r)\<rparr>)"
  unfolding wf_store_def
proof (intro allI impI)
  fix c1 r1
  assume a: "cache (s\<lparr>ds := d, cache := (cache s)(c \<mapsto> r)\<rparr>) c1 = Some r1"
  let ?s' = "s\<lparr>ds := d, cache := (cache s)(c \<mapsto> r)\<rparr>"
  show "Cid r1 = c1 \<and> owns ?s' c1 (Pins r1)"
  proof (cases "c1 = c")
    case True
    with a have r1: "r1 = r" by simp
    have "owns ?s' c (Pins r)"
      using o unfolding owns_def by auto
    with True r1 k show ?thesis by simp
  next
    case False
    with a have c1: "cache s c1 = Some r1" by simp
    from wf_storeD[OF w c1] have k1: "Cid r1 = c1" and o1: "owns s c1 (Pins r1)" by simp_all
    have "owns ?s' c1 (Pins r1)"
      unfolding owns_def
    proof (intro conjI impI allI)
      show "len (Pins r1) \<le> cap (Pins r1)" using o1 by (rule owns_leD)
    next
      assume p: "0 < cap (Pins r1)"
      from owns_freshD[OF o1 p] show "arr (Pins r1) < nextaddr ?s'" by simp
      from owns_freshD[OF o1 p] show "length (heap ?s' (arr (Pins r1))) = cap (Pins r1)" by simp
      fix c' r'
      assume h: "c' \<noteq> c1 \<and> cache ?s' c' = Some r' \<and> 0 < cap (Pins r')"
      show "arr (Pins r') \<noteq> arr (Pins r1)"
      proof (cases "c' = c")
        case True
        with h have "r' = r" by simp
        moreover from owns_sepD[OF o _ False c1 p] h \<open>r' = r\<close> have "arr (Pins r1) \<noteq> arr (Pins r)" by simp
        ultimately show ?thesis by simp
      next
        case False
        with h have "cache s c' = Some r'" by simp
        with owns_sepD[OF o1 p _ this] h show ?thesis by simp
      qed
    qed
    with k1 show ?thesis by simp
  qed
qed

lemma ledger_install:
  "ledger (s\<lparr>ds := d, cache := (cache s)(c \<mapsto> r)\<rparr>) = (ledger s)(c \<mapsto> elems (heap s) (Pins r))"
  by (rule ext) (simp add: ledger_def split: option.splits)

text \<open>A write into the array of one entry is not seen through another entry.\<close>

lemma owns_store_at: "owns s c sl' \<Longrightarrow> owns (store_at s sl i p) c sl'"
  unfolding owns_def store_at_def by auto

lemma wf_store_at: "wf_store s \<Longrightarrow> wf_store (store_at s sl i p)"
  unfolding wf_store_def
proof (intro allI impI)
  fix c r
  assume w: "\<forall>c r. cache s c = Some r \<longrightarrow> Cid r = c \<and> owns s c (Pins r)"
    and a: "cache (store_at s sl i p) c = Some r"
  from a have "cache s c = Some r" by (simp add: store_at_def)
  with w have "Cid r = c" "owns s c (Pins r)" by simp_all
  then show "Cid r = c \<and> owns (store_at s sl i p) c (Pins r)"
    by (simp add: owns_store_at)
qed

lemma ledger_store_at_other:
  assumes "wf_store s" "owns s c sl" "0 < cap sl" "c' \<noteq> c"
  shows "ledger (store_at s sl i p) c' = ledger s c'"
proof (cases "cache s c'")
  case None
  then show ?thesis by (simp add: ledger_def store_at_def)
next
  case (Some r')
  show ?thesis
  proof (cases "0 < cap (Pins r')")
    case True
    from owns_sepD[OF assms(2,3,4) Some True] have "arr (Pins r') \<noteq> arr sl" .
    then show ?thesis using Some by (simp add: ledger_def store_at_def elems_other)
  next
    case False
    from wf_storeD[OF assms(1) Some] have "len (Pins r') \<le> cap (Pins r')" by (auto dest: owns_leD)
    with False have "len (Pins r') = 0" by simp
    then show ?thesis using Some by (simp add: ledger_def store_at_def elems_empty)
  qed
qed

lemma elems_store_at: "elems (heap (store_at s sl i p)) sl = (elems (heap s) sl)[i := p]"
  by (simp add: store_at_def elems_within)

lemma elems_store_at_beyond: "len sl \<le> i \<Longrightarrow> elems (heap (store_at s sl i p)) sl = elems (heap s) sl"
  by (simp add: store_at_def elems_beyond)

text \<open>Allocating a new array, and \<open>append\<close>.\<close>

lemma ledger_alloc:
  assumes w: "wf_store s"
  shows "ledger (s\<lparr>heap := (heap s)(nextaddr s := x), nextaddr := n\<rparr>) = ledger s"
proof (rule ext)
  fix c'
  let ?s1 = "s\<lparr>heap := (heap s)(nextaddr s := x), nextaddr := n\<rparr>"
  show "ledger ?s1 c' = ledger s c'"
  proof (cases "cache s c'")
    case None
    then show ?thesis by (simp add: ledger_def)
  next
    case (Some r')
    from wf_storeD[OF w Some] have o: "owns s c' (Pins r')" by simp
    show ?thesis
    proof (cases "0 < cap (Pins r')")
      case True
      from owns_freshD[OF o True] have "arr (Pins r') \<noteq> nextaddr s" by simp
      then show ?thesis using Some by (simp add: ledger_def elems_other)
    next
      case False
      with owns_leD[OF o] have "len (Pins r') = 0" by simp
      then show ?thesis using Some by (simp add: ledger_def elems_empty)
    qed
  qed
qed

lemma owns_alloc:
  assumes o: "owns s c sl"
  shows "owns (s\<lparr>heap := (heap s)(nextaddr s := x), nextaddr := Suc (nextaddr s)\<rparr>) c sl"
  using o unfolding owns_def by auto

lemma wf_alloc:
  assumes w: "wf_store s"
  shows "wf_store (s\<lparr>heap := (heap s)(nextaddr s := x), nextaddr := Suc (nextaddr s)\<rparr>)"
  unfolding wf_store_def
proof (intro allI impI)
  fix c r
  assume "cache (s\<lparr>heap := (heap s)(nextaddr s := x), nextaddr := Suc (nextaddr s)\<rparr>) c = Some r"
  then have "cache s c = Some r" by simp
  from wf_storeD[OF w this]
  show "Cid r = c \<and> owns (s\<lparr>heap := (heap s)(nextaddr s := x), nextaddr := Suc (nextaddr s)\<rparr>) c (Pins r)"
    by (simp add: owns_alloc)
qed

lemma owns_new:
  assumes w: "wf_store s" and l: "l \<le> length x" and x: "0 < length x"
  shows "owns (s\<lparr>heap := (heap s)(nextaddr s := x), nextaddr := Suc (nextaddr s)\<rparr>) c
           \<lparr>arr = nextaddr s, len = l, cap = length x\<rparr>"
  unfolding owns_def
proof (intro conjI impI allI)
  fix c' r'
  assume h: "c' \<noteq> c \<and>
       cache (s\<lparr>heap := (heap s)(nextaddr s := x), nextaddr := Suc (nextaddr s)\<rparr>) c' = Some r' \<and>
       0 < cap (Pins r')"
  then have c: "cache s c' = Some r'" and p: "0 < cap (Pins r')" by simp_all
  from wf_storeD[OF w c] have "owns s c' (Pins r')" by simp
  from owns_freshD[OF this p]
  show "arr (Pins r') \<noteq> arr \<lparr>arr = nextaddr s, len = l, cap = length x\<rparr>" by simp
qed (use l in simp_all)

lemma append_slice_props:
  assumes w: "wf_store s" and sl: "sl = Pins (load s c)" and a: "append_slice e s sl p = (sl', s1)"
  shows "wf_store s1 \<and> owns s1 c sl' \<and> elems (heap s1) sl' = elems (heap s) sl @ [p] \<and>
         ledger s1 = ledger s \<and> cache s1 = cache s \<and> ds s1 = ds s"
proof -
  from w sl have o: "owns s c sl" by (simp add: owns_load)
  have ln: "length (elems (heap s) sl) = len sl" using o by (rule owns_length)
  show ?thesis
  proof (cases "len sl < cap sl")
    case True
    with a have s1: "s1 = store_at s sl (len sl) p" and sl': "sl' = sl\<lparr>len := len sl + 1\<rparr>"
      by (simp_all add: append_slice_def)
    from True have cp: "0 < cap sl" by simp
    from owns_freshD[OF o cp] have lh: "length (heap s (arr sl)) = cap sl" by simp
    have "owns s c sl'" using o True unfolding owns_def sl' by auto
    then have o1: "owns s1 c sl'" unfolding s1 by (rule owns_store_at)
    have e1: "elems (heap s1) sl' = elems (heap s) sl @ [p]"
      using True lh by (simp add: s1 sl' elems_def store_at_def take_Suc_conv_app_nth)
    have l1: "ledger s1 = ledger s"
    proof (rule ext)
      fix c'
      show "ledger s1 c' = ledger s c'"
      proof (cases "c' = c")
        case False
        then show ?thesis unfolding s1 using ledger_store_at_other[OF w o cp] by simp
      next
        case True
        show ?thesis
        proof (cases "cache s c")
          case None
          then show ?thesis using True by (simp add: ledger_def s1 store_at_def)
        next
          case (Some r)
          with sl have "Pins r = sl" by (simp add: load_def)
          then show ?thesis using True Some
            by (simp add: ledger_def s1 store_at_def elems_beyond)
        qed
      qed
    qed
    show ?thesis using wf_store_at[OF w] o1 e1 l1 by (simp add: s1 store_at_def)
  next
    case False
    define n where "n = max (len sl + 1) (grow e)"
    define x where "x = elems (heap s) sl @ p # replicate (n - (len sl + 1)) zero_Pin"
    from False a have s1: "s1 = s\<lparr>heap := (heap s)(nextaddr s := x), nextaddr := Suc (nextaddr s)\<rparr>"
      and sl': "sl' = \<lparr>arr = nextaddr s, len = len sl + 1, cap = n\<rparr>"
      by (simp_all add: append_slice_def Let_def n_def x_def)
    have lx: "length x = n" using ln by (simp add: x_def n_def)
    have "owns s1 c \<lparr>arr = nextaddr s, len = len sl + 1, cap = length x\<rparr>"
      unfolding s1 by (rule owns_new[OF w]) (simp_all add: lx n_def)
    then have o1: "owns s1 c sl'" by (simp add: sl' lx)
    have e1: "elems (heap s1) sl' = elems (heap s) sl @ [p]"
      using ln by (simp add: s1 sl' elems_def x_def)
    show ?thesis using wf_alloc[OF w] o1 e1 ledger_alloc[OF w] by (simp add: s1)
  qed
qed

lemma elems_store_at_ge: "len sl \<le> i \<Longrightarrow> elems (heap (store_at s sl' i p)) sl = elems (heap s) sl"
  by (cases "arr sl = arr sl'") (simp_all add: store_at_def elems_def)

lemma entry_pins_Some: "cache s c = Some r \<Longrightarrow> entry_pins s c = elems (heap s) (Pins r)"
  by (simp add: entry_pins_def load_def)

lemma entry_pins_None: "cache s c = None \<Longrightarrow> entry_pins s c = []"
  by (simp add: entry_pins_def load_def nil_slice_def elems_def)

lemma load_Some: "cache s c = Some r \<Longrightarrow> load s c = r"
  by (simp add: load_def)

lemma find_idx_cache:
  assumes "find_idx iid (entry_pins s c) = Some i"
  obtains r where "cache s c = Some r" "i < len (Pins r)" "i < length (entry_pins s c)"
proof (cases "cache s c")
  case None
  with assms show ?thesis by (simp add: entry_pins_None)
next
  case (Some r)
  from find_idx_Some[OF assms] have "i < length (entry_pins s c)" by simp
  moreover then have "i < len (Pins r)" using Some by (simp add: entry_pins_Some elems_def)
  ultimately show ?thesis using Some that by blast
qed

text \<open>A write into the array of an entry, followed by persist of the (possibly shortened) entry.\<close>

lemma write_persist:
  assumes w: "wf_store s" and c: "cache s c = Some r" and i: "i < len (Pins r)"
    and l: "l \<le> len (Pins r)"
    and s': "s' = snd (persist e (r\<lparr>Pins := (Pins r)\<lparr>len := l\<rparr>\<rparr>) (store_at s (Pins r) i v))"
  shows "wf_store s' \<and>
         ledger s' = (ledger s)(c \<mapsto> (if persist_err e = None then take l ((entry_pins s c)[i := v])
                                       else (entry_pins s c)[i := v])) \<and>
         ds s' = (if persist_err e = None then (ds s)(c \<mapsto> (c, take l ((entry_pins s c)[i := v]))) else ds s)"
proof -
  let ?sl = "Pins r"
  let ?s1 = "store_at s ?sl i v"
  from wf_storeD[OF w c] have k: "Cid r = c" and o: "owns s c ?sl" by simp_all
  from owns_leD[OF o] i have cp: "0 < cap ?sl" by simp
  have w1: "wf_store ?s1" using w by (rule wf_store_at)
  have c1: "cache ?s1 c = Some r" using c by (simp add: store_at_def)
  have ep: "entry_pins s c = elems (heap s) ?sl" using c by (rule entry_pins_Some)
  have l1: "ledger ?s1 = (ledger s)(c \<mapsto> (entry_pins s c)[i := v])"
  proof (rule ext)
    fix c'
    show "ledger ?s1 c' = ((ledger s)(c \<mapsto> (entry_pins s c)[i := v])) c'"
    proof (cases "c' = c")
      case True
      then show ?thesis using c1 by (simp add: ledger_def elems_store_at ep)
    next
      case False
      then show ?thesis using ledger_store_at_other[OF w o cp False] by simp
    qed
  qed
  show ?thesis
  proof (cases "persist_err e = None")
    case False
    then have "s' = ?s1" unfolding s' by (simp add: persist_fail)
    moreover have "ds ?s1 = ds s" by (simp add: store_at_def)
    ultimately show ?thesis using w1 l1 False by auto
  next
    case True
    let ?r' = "r\<lparr>Pins := ?sl\<lparr>len := l\<rparr>\<rparr>"
    have e': "elems (heap ?s1) (Pins ?r') = take l ((entry_pins s c)[i := v])"
      using l by (simp add: elems_def store_at_def ep min_absorb1 take_update_swap)
    have s'_eq: "s' = ?s1\<lparr>ds := (ds ?s1)(c \<mapsto> (c, take l ((entry_pins s c)[i := v]))),
                         cache := (cache ?s1)(c \<mapsto> ?r')\<rparr>"
      unfolding s' using persist_ok[OF True, of ?r' ?s1] k e' by simp
    have "owns s c (Pins ?r')" using o l unfolding owns_def by auto
    then have o': "owns ?s1 c (Pins ?r')" by (rule owns_store_at)
    have w': "wf_store s'" unfolding s'_eq by (rule wf_install[OF w1 o']) (simp add: k)
    have "ledger s' = (ledger ?s1)(c \<mapsto> take l ((entry_pins s c)[i := v]))"
      unfolding s'_eq ledger_install e' ..
    then show ?thesis using w' True l1 by (simp add: s'_eq store_at_def)
  qed
qed

text \<open>\<open>append\<close>, an optional write of the new last cell, then persist.\<close>

lemma append_persist:
  assumes w: "wf_store s" and a: "append_slice e s (Pins (load s c)) p0 = (sl, s1)"
    and s2: "s2 = (if wr then store_at s1 sl (len sl - 1) p else s1)"
    and p: "\<not> wr \<Longrightarrow> p = p0"
    and s': "s' = snd (persist e ((load s c)\<lparr>Pins := sl\<rparr>) s2)"
  shows "wf_store s' \<and>
         ledger s' = (if persist_err e = None then (ledger s)(c \<mapsto> entry_pins s c @ [p]) else ledger s) \<and>
         ds s' = (if persist_err e = None then (ds s)(c \<mapsto> (c, entry_pins s c @ [p])) else ds s)"
proof -
  let ?r = "load s c"
  from append_slice_props[OF w refl a]
  have w1: "wf_store s1" and o1: "owns s1 c sl"
    and e1: "elems (heap s1) sl = entry_pins s c @ [p0]"
    and l1: "ledger s1 = ledger s" and c1: "cache s1 = cache s" and d1: "ds s1 = ds s"
    by (simp_all add: entry_pins_def)
  have ln: "len sl = Suc (length (entry_pins s c))"
    using owns_length[OF o1] e1 by simp
  have k: "Cid ?r = c" using w by (rule Cid_load)
  have w2: "wf_store s2" using s2 w1 by (cases wr) (simp_all add: wf_store_at)
  have o2: "owns s2 c sl" using s2 o1 by (cases wr) (simp_all add: owns_store_at)
  have e2: "elems (heap s2) sl = entry_pins s c @ [p]"
    using s2 p e1 ln by (cases wr) (simp_all add: elems_store_at)
  have c2: "cache s2 = cache s" and d2: "ds s2 = ds s"
    using s2 c1 d1 by (cases wr; simp add: store_at_def)+
  have l2: "ledger s2 = ledger s"
  proof (cases wr)
    case False
    then show ?thesis using l1 s2 by simp
  next
    case True
    with s2 have s2': "s2 = store_at s1 sl (len sl - 1) p" by simp
    from owns_leD[OF o1] ln have cp: "0 < cap sl" by simp
    have "ledger s2 c' = ledger s1 c'" for c'
    proof (cases "c' = c")
      case False
      then show ?thesis unfolding s2' using ledger_store_at_other[OF w1 o1 cp] by simp
    next
      case True
      show ?thesis
      proof (cases "cache s c")
        case None
        then show ?thesis using True c1 c2 by (simp add: ledger_def)
      next
        case (Some r)
        then have "length (elems (heap s) (Pins r)) = len (Pins r)"
          using wf_storeD[OF w Some] by (auto intro: owns_length)
        then have "len (Pins r) \<le> len sl - 1"
          using ln Some by (simp add: entry_pins_Some)
        then have "elems (heap s2) (Pins r) = elems (heap s1) (Pins r)"
          unfolding s2' by (rule elems_store_at_ge)
        then show ?thesis using True Some c1 c2 by (simp add: ledger_def)
      qed
    qed
    then show ?thesis using l1 by (simp add: fun_eq_iff)
  qed
  show ?thesis
  proof (cases "persist_err e = None")
    case False
    then have "s' = s2" unfolding s' by (simp add: persist_fail)
    then show ?thesis using w2 l2 d2 False by auto
  next
    case True
    let ?r' = "?r\<lparr>Pins := sl\<rparr>"
    have s'_eq: "s' = s2\<lparr>ds := (ds s2)(c \<mapsto> (c, entry_pins s c @ [p])), cache := (cache s2)(c \<mapsto> ?r')\<rparr>"
      unfolding s' using persist_ok[OF True, of ?r' s2] k e2 by simp
    have w': "wf_store s'" unfolding s'_eq by (rule wf_install[OF w2]) (simp_all add: o2 k)
    have "ledger s' = (ledger s2)(c \<mapsto> entry_pins s c @ [p])"
      unfolding s'_eq ledger_install using e2 by simp
    then show ?thesis using w' True l2 d2 by (simp add: s'_eq)
  qed
qed

lemma entry_pins_length: "wf_store s \<Longrightarrow> cache s c = Some r \<Longrightarrow> length (entry_pins s c) = len (Pins r)"
  using wf_storeD[of s c r] by (auto simp: entry_pins_Some intro: owns_length)

lemma write_persist_same:
  assumes w: "wf_store s" and c: "cache s c = Some r" and i: "i < len (Pins r)"
    and s': "s' = snd (persist e r (store_at s (Pins r) i v))"
  shows "wf_store s' \<and>
         ledger s' = (ledger s)(c \<mapsto> (entry_pins s c)[i := v]) \<and>
         ds s' = (if persist_err e = None then (ds s)(c \<mapsto> (c, (entry_pins s c)[i := v])) else ds s)"
proof -
  have "r\<lparr>Pins := (Pins r)\<lparr>len := len (Pins r)\<rparr>\<rparr> = r" by simp
  with s' have "s' = snd (persist e (r\<lparr>Pins := (Pins r)\<lparr>len := len (Pins r)\<rparr>\<rparr>) (store_at s (Pins r) i v))"
    by simp
  from write_persist[OF w c i le_refl this] entry_pins_length[OF w c]
  show ?thesis by simp
qed

section \<open>What each operation does to the ledger\<close>

subsection \<open>AddStaged\<close>


lemma AddStaged_effect:
  assumes w: "wf_store s" and s': "s' = snd (AddStaged e iid c s)"
  shows "wf_store s' \<and>
     ledger s' =
       (case find_idx iid (entry_pins s c) of
          Some i \<Rightarrow>
            if Staged (entry_pins s c ! i)
            then (ledger s)(c \<mapsto> (entry_pins s c)[i := (entry_pins s c ! i)\<lparr>CreatedAt := now e\<rparr>])
            else ledger s
        | None \<Rightarrow>
            if persist_err e = None
            then (ledger s)(c \<mapsto> entry_pins s c @ [\<lparr>APIID = iid, Staged = True, CreatedAt = now e\<rparr>])
            else ledger s) \<and>
     ds s' =
       (case find_idx iid (entry_pins s c) of
          Some i \<Rightarrow>
            if Staged (entry_pins s c ! i) \<and> persist_err e = None
            then (ds s)(c \<mapsto> (c, (entry_pins s c)[i := (entry_pins s c ! i)\<lparr>CreatedAt := now e\<rparr>]))
            else ds s
        | None \<Rightarrow>
            if persist_err e = None
            then (ds s)(c \<mapsto> (c, entry_pins s c @ [\<lparr>APIID = iid, Staged = True, CreatedAt = now e\<rparr>]))
            else ds s)"
proof (cases "find_idx iid (entry_pins s c)")
  case None
  let ?p = "\<lparr>APIID = iid, Staged = True, CreatedAt = now e\<rparr>"
  obtain sl s1 where a: "append_slice e s (Pins (load s c)) ?p = (sl, s1)"
    by (cases "append_slice e s (Pins (load s c)) ?p")
  with None s' have "s' = snd (persist e ((load s c)\<lparr>Pins := sl\<rparr>) s1)"
    by (simp add: AddStaged_def entry_pins_def Let_def)
  from append_persist[OF w a _ _ this, of False ?p] None
  show ?thesis by simp
next
  case (Some i)
  then obtain r where r: "cache s c = Some r" and i: "i < len (Pins r)"
    and il: "i < length (entry_pins s c)"
    by (rule find_idx_cache)
  have p: "heap s (arr (Pins r)) ! i = entry_pins s c ! i"
    using il r by (simp add: entry_pins_Some elems_nth)
  show ?thesis
  proof (cases "Staged (entry_pins s c ! i)")
    case False
    with Some r p s' have "s' = s"
      by (simp add: AddStaged_def load_Some entry_pins_Some Let_def)
    then show ?thesis using w Some False by simp
  next
    case True
    with Some r p s'
    have "s' = snd (persist e r (store_at s (Pins r) i ((entry_pins s c ! i)\<lparr>CreatedAt := now e\<rparr>)))"
      by (simp add: AddStaged_def load_Some entry_pins_Some Let_def)
    from write_persist_same[OF w r i this] Some True
    show ?thesis by simp
  qed
qed

subsection \<open>Add\<close>

lemma Add_result: "fst (Add e iid c s) = persist_err e"
  by (simp add: Add_def Let_def persist_result split: option.splits prod.splits)

lemma Add_effect:
  assumes w: "wf_store s" and s': "s' = snd (Add e iid c s)"
  shows "wf_store s' \<and>
     ledger s' =
       (case find_idx iid (entry_pins s c) of
          Some i \<Rightarrow> (ledger s)(c \<mapsto> (entry_pins s c)[i := \<lparr>APIID = iid, Staged = False, CreatedAt = now e\<rparr>])
        | None \<Rightarrow>
            if persist_err e = None
            then (ledger s)(c \<mapsto> entry_pins s c @ [\<lparr>APIID = iid, Staged = False, CreatedAt = now e\<rparr>])
            else ledger s) \<and>
     ds s' =
       (if persist_err e = None
        then (ds s)(c \<mapsto> (c,
          case find_idx iid (entry_pins s c) of
            Some i \<Rightarrow> (entry_pins s c)[i := \<lparr>APIID = iid, Staged = False, CreatedAt = now e\<rparr>]
          | None \<Rightarrow> entry_pins s c @ [\<lparr>APIID = iid, Staged = False, CreatedAt = now e\<rparr>]))
        else ds s)"
proof (cases "find_idx iid (entry_pins s c)")
  case None
  let ?v = "\<lparr>APIID = iid, Staged = False, CreatedAt = now e\<rparr>"
  obtain sl s1 where a: "append_slice e s (Pins (load s c)) zero_Pin = (sl, s1)"
    by (cases "append_slice e s (Pins (load s c)) zero_Pin")
  with None s' have "s' = snd (persist e ((load s c)\<lparr>Pins := sl\<rparr>) (store_at s1 sl (len sl - 1) ?v))"
    by (simp add: Add_def entry_pins_def Let_def)
  from append_persist[OF w a _ _ this, of True ?v] None
  show ?thesis by simp
next
  case (Some i)
  then obtain r where r: "cache s c = Some r" and i: "i < len (Pins r)"
    by (rule find_idx_cache)
  from Some r s'
  have "s' = snd (persist e r (store_at s (Pins r) i \<lparr>APIID = iid, Staged = False, CreatedAt = now e\<rparr>))"
    by (simp add: Add_def load_Some entry_pins_Some Let_def)
  from write_persist_same[OF w r i this] Some
  show ?thesis by simp
qed

subsection \<open>Remove\<close>

lemma Remove_result:
  "fst (Remove e iid c s) =
     (case cache s c of
        None \<Rightarrow> Some NotPinned
      | Some r \<Rightarrow> (case find_idx iid (entry_pins s c) of None \<Rightarrow> None | Some i \<Rightarrow> persist_err e))"
  by (simp add: Remove_def Let_def persist_result entry_pins_Some split: option.splits)

lemma Remove_effect:
  assumes w: "wf_store s" and s': "s' = snd (Remove e iid c s)"
  shows "wf_store s' \<and>
     ledger s' =
       (case find_idx iid (entry_pins s c) of
          None \<Rightarrow> ledger s
        | Some i \<Rightarrow>
            if persist_err e = None
            then (ledger s)(c \<mapsto> butlast ((entry_pins s c)[i := last (entry_pins s c)]))
            else (ledger s)(c \<mapsto> (entry_pins s c)[i := last (entry_pins s c)])) \<and>
     ds s' =
       (case find_idx iid (entry_pins s c) of
          None \<Rightarrow> ds s
        | Some i \<Rightarrow>
            if persist_err e = None
            then (ds s)(c \<mapsto> (c, butlast ((entry_pins s c)[i := last (entry_pins s c)])))
            else ds s)"
proof (cases "find_idx iid (entry_pins s c)")
  case None
  have "s' = s"
  proof (cases "cache s c")
    case None
    then show ?thesis using s' by (simp add: Remove_def)
  next
    case (Some r)
    then show ?thesis using s' None by (simp add: Remove_def entry_pins_Some)
  qed
  then show ?thesis using w None by simp
next
  case (Some i)
  then obtain r where r: "cache s c = Some r" and i: "i < len (Pins r)"
    and il: "i < length (entry_pins s c)"
    by (rule find_idx_cache)
  have ln: "length (entry_pins s c) = len (Pins r)" using w r by (rule entry_pins_length)
  from il have ne: "entry_pins s c \<noteq> []" by auto
  have "heap s (arr (Pins r)) ! (len (Pins r) - 1) = entry_pins s c ! (length (entry_pins s c) - 1)"
    using il ln r by (simp add: entry_pins_Some elems_nth)
  with ne have lst: "heap s (arr (Pins r)) ! (len (Pins r) - 1) = last (entry_pins s c)"
    by (simp add: last_conv_nth)
  from Some r s' lst
  have "s' = snd (persist e (r\<lparr>Pins := (Pins r)\<lparr>len := len (Pins r) - 1\<rparr>\<rparr>)
                     (store_at s (Pins r) i (last (entry_pins s c))))"
    by (simp add: Remove_def entry_pins_Some Let_def)
  from write_persist[OF w r i _ this] Some ln
  show ?thesis by (simp add: butlast_conv_take)
qed

subsection \<open>RemoveStaged\<close>

lemma RemoveStaged_result:
  "fst (RemoveStaged e c s) =
     (case cache s c of
        None \<Rightarrow> Some NotPinned
      | Some r \<Rightarrow>
          if \<not> all_staged (entry_pins s c) then Some NotAllStaged
          else if \<not> delete_ok e then Some DeleteFailed else None)"
  by (simp add: RemoveStaged_def entry_pins_Some split: option.splits)

lemma RemoveStaged_effect:
  assumes w: "wf_store s" and s': "s' = snd (RemoveStaged e c s)"
  shows "wf_store s' \<and> ledger s' = ledger s \<and> cache s' = cache s \<and> heap s' = heap s \<and>
     ds s' = (if fst (RemoveStaged e c s) = None then (ds s)(c := None) else ds s)"
proof (cases "fst (RemoveStaged e c s) = None")
  case False
  then have "s' = s" using s' by (auto simp: RemoveStaged_def split: option.splits if_splits)
  then show ?thesis using w False by auto
next
  case True
  then obtain r where r: "cache s c = Some r"
    and s'_eq: "s' = s\<lparr>ds := (ds s)(c := None), cache := (cache s)(c \<mapsto> r)\<rparr>"
    using s' by (auto simp: RemoveStaged_def split: option.splits if_splits)
  from r have cc: "(cache s)(c \<mapsto> r) = cache s" by (rule map_upd_triv)
  have "ledger s' = ledger s" by (rule ext) (simp add: s'_eq cc ledger_def split: option.splits)
  moreover have "wf_store s'"
    unfolding s'_eq using wf_storeD[OF w r] by (intro wf_install[OF w]) simp_all
  ultimately show ?thesis using True by (simp add: s'_eq cc)
qed

lemma reachable_wf: "reachable s \<Longrightarrow> wf_store s"
proof (induction rule: reachable.induct)
  case r_init
  show ?case by (rule wf_empty)
next
  case (r_AddStaged s e iid c)
  then show ?case using AddStaged_effect[OF _ refl] by blast
next
  case (r_Add s e iid c)
  then show ?case using Add_effect[OF _ refl] by blast
next
  case (r_Remove s e iid c)
  then show ?case using Remove_effect[OF _ refl] by blast
next
  case (r_RemoveStaged s e c)
  then show ?case using RemoveStaged_effect[OF _ refl] by blast
qed

section \<open>Observations in terms of the ledger\<close>

lemma ledger_None: "ledger s c = None \<longleftrightarrow> cache s c = None"
  by (simp add: ledger_def split: option.splits)

lemma entry_pins_of_ledger: "ledger s c = Some xs \<Longrightarrow> entry_pins s c = xs"
  by (simp add: entry_pins_ledger)

lemma RefCount_ledger:
  assumes "wf_store s"
  shows "RefCount s c = (case ledger s c of None \<Rightarrow> (0, 0) | Some xs \<Rightarrow> (int (length xs), count_staged xs))"
proof (cases "cache s c")
  case None
  then show ?thesis by (simp add: RefCount_def ledger_def)
next
  case (Some r)
  from entry_pins_length[OF assms Some] Some show ?thesis
    by (simp add: RefCount_def ledger_def entry_pins_Some)
qed

lemma IsPinned_ledger: "IsPinned s c \<longleftrightarrow> ledger s c \<noteq> None"
  by (simp add: IsPinned_def ledger_def split: option.splits)

lemma IsPinnedBy_ledger:
  "IsPinnedBy s iid c \<longleftrightarrow> (case ledger s c of None \<Rightarrow> False | Some xs \<Rightarrow> iid \<in> APIID ` set xs)"
proof (cases "cache s c")
  case None
  then show ?thesis by (simp add: IsPinnedBy_def ledger_def)
next
  case (Some r)
  show ?thesis
  proof (cases "find_idx iid (elems (heap s) (Pins r))")
    case None
    then show ?thesis using Some by (simp add: IsPinnedBy_def ledger_def find_idx_None[symmetric])
  next
    case (Some i)
    then have "find_idx iid (elems (heap s) (Pins r)) \<noteq> None" by simp
    then have "iid \<in> APIID ` set (elems (heap s) (Pins r))" by (simp add: find_idx_None)
    then show ?thesis using Some \<open>cache s c = Some r\<close> by (simp add: IsPinnedBy_def ledger_def)
  qed
qed

lemma only_staged_Cids:
  assumes "wf_store s"
  shows "map Cid (only_staged s order) =
         filter (\<lambda>k. case ledger s k of None \<Rightarrow> False | Some xs \<Rightarrow> all_staged xs) order"
proof (induction order)
  case Nil
  show ?case by simp
next
  case (Cons k ks)
  show ?case
  proof (cases "cache s k")
    case None
    then show ?thesis using Cons by (simp add: ledger_def)
  next
    case (Some v)
    from wf_storeD[OF assms Some] have "Cid v = k" by simp
    then show ?thesis using Cons Some by (simp add: ledger_def)
  qed
qed

lemma only_staged_mem:
  "v \<in> set (only_staged s order) \<Longrightarrow>
   \<exists>k \<in> set order. cache s k = Some v \<and> all_staged (elems (heap s) (Pins v))"
  by (induction order) (auto split: option.splits if_splits)

lemma count_staged_all: "count_staged xs = int (length xs) \<longleftrightarrow> all_staged xs"
proof (induction xs)
  case Nil
  show ?case by simp
next
  case (Cons x xs)
  have "count_staged xs \<le> int (length xs)" by (rule count_staged_le)
  with Cons show ?case by auto
qed

lemma too_recent_iff: "too_recent t xs \<longleftrightarrow> (\<exists>p \<in> set xs. t < CreatedAt p)"
  by (induction xs) auto

section \<open>The example runs\<close>

lemma reachable_st_A: "reachable st_A"
  unfolding st_A_def by (intro reachable.intros)

lemma reachable_st_AB: "reachable st_AB"
  unfolding st_AB_def by (intro reachable.intros reachable_st_A)

lemma wf_st_AB: "wf_store st_AB"
  by (rule reachable_wf[OF reachable_st_AB])

lemma reachable_st_E: "reachable st_E"
  unfolding st_E_def by (intro reachable.intros reachable_st_A)

lemma RemoveStaged_cache: "cache (snd (RemoveStaged e c s)) = cache s"
  by (auto simp: RemoveStaged_def map_upd_triv split: option.splits)

lemma mset_butlast: "xs \<noteq> [] \<Longrightarrow> mset (butlast xs) = mset xs - {#last xs#}"
  by (induction xs) auto

lemma mset_swap_remove:
  assumes "i < length xs"
  shows "mset (butlast (xs[i := last xs])) = mset xs - {#xs ! i#}"
proof -
  let ?zs = "xs[i := last xs]"
  from assms have ne: "xs \<noteq> []" by auto
  then have nz: "?zs \<noteq> []" by simp
  have lz: "last ?zs = last xs"
  proof (cases "i = length xs - 1")
    case True
    then show ?thesis using ne assms by (simp add: last_conv_nth)
  next
    case False
    then show ?thesis using ne assms by (simp add: last_conv_nth)
  qed
  have "mset (butlast ?zs) = mset ?zs - {#last ?zs#}" using nz by (rule mset_butlast)
  also have "\<dots> = add_mset (last xs) (mset xs - {#xs ! i#}) - {#last xs#}"
    using assms by (simp add: mset_update lz)
  also have "\<dots> = mset xs - {#xs ! i#}" by simp
  finally show ?thesis .
qed


section \<open>Reference counts\<close>

lemma RefCount_le: "snd (RefCount s c) \<le> fst (RefCount s c)"
proof (cases "cache s c")
  case None
  then show ?thesis by (simp add: RefCount_def)
next
  case (Some r)
  have "count_staged (elems (heap s) (Pins r)) \<le> int (length (elems (heap s) (Pins r)))"
    by (rule count_staged_le)
  also have "\<dots> \<le> int (len (Pins r))"
    by (simp add: elems_def)
  finally show ?thesis using Some by (simp add: RefCount_def)
qed

text \<open>
  Claim C7. In every ledger state reachable by calls of AddStaged, Add, Remove and
  RemoveStaged, and for every Cid c, RefCount returns a pair (total, staged) with
  staged at most total, and the pair (0, 0) when c has no entry. RefCount assigns no
  field of the store: it is a function of the state that returns the pair only.
\<close>

theorem RefCount_total_ge_staged:
  assumes "reachable s"
  shows "snd (RefCount s c) \<le> fst (RefCount s c) \<and>
         (cache s c = None \<longrightarrow> RefCount s c = (0, 0))"
  using RefCount_le [of s c] by (simp add: RefCount_def)

theorem RefCount_total_ge_staged_witness:
  "reachable st_AB \<and> RefCount st_AB ''c'' = (2, 1) \<and>
   snd (RefCount st_AB ''c'') \<le> fst (RefCount st_AB ''c'') \<and>
   cache st_AB ''d'' = None \<and> RefCount st_AB ''d'' = (0, 0)"
proof -
  have c: "RefCount st_AB ''c'' = (2, 1)" by code_simp
  have d: "cache st_AB ''d'' = None" by code_simp
  from RefCount_total_ge_staged [OF reachable_st_AB, of "''c''"]
    RefCount_total_ge_staged [OF reachable_st_AB, of "''d''"] c d reachable_st_AB
  show ?thesis by simp
qed

section \<open>Staging\<close>



section \<open>The purge of a staged entry\<close>

text \<open>
  Claim C1. A successful RemoveStaged of a Cid whose entry holds staged pins only should
  delete the entry from the datastore and from the cache, so that RefCount, IsPinned and
  GetAllOnlyStaged no longer report the Cid. The code deletes the key from the
  datastore and then assigns the entry it has just read back to the cache. Run on the
  ledger where tenant A has staged c: the call returns no error, the datastore has lost
  the key, and the cache still holds the entry, which IsPinned, RefCount and
  GetAllOnlyStaged report.
\<close>

theorem RemoveStaged_keeps_cache_entry:
  "fst (RemoveStaged (env_ok 3) ''c'' st_A) = None \<and>
   ds (snd (RemoveStaged (env_ok 3) ''c'' st_A)) ''c'' = None \<and>
   IsPinned (snd (RemoveStaged (env_ok 3) ''c'' st_A)) ''c'' \<and>
   RefCount (snd (RemoveStaged (env_ok 3) ''c'' st_A)) ''c'' = (1, 1) \<and>
   map Cid (fst (GetAllOnlyStaged [''c''] (snd (RemoveStaged (env_ok 3) ''c'' st_A)))) = [''c'']"
  by code_simp

section \<open>Failure of the datastore\<close>

text \<open>
  When the tenant has no pin on the Cid, AddStaged and Add only append, and a failing
  persist leaves the ledger as it was.
\<close>

lemma persist_failure_new_pin:
  assumes w: "wf_store s" and n: "find_idx iid (entry_pins s c) = None"
    and f: "persist_err e \<noteq> None"
  shows "ledger (snd (AddStaged e iid c s)) = ledger s \<and> ledger (snd (Add e iid c s)) = ledger s"
  using AddStaged_effect[OF w refl, of e iid c] Add_effect[OF w refl, of e iid c] n f by auto

text \<open>
  Claim C10. When \<open>ds.Put\<close> fails during AddStaged, Add or Remove, the call should
  return an error and leave the cache as it was. \<open>persist\<close> writes the cache only after
  a successful Put, but the three operations have by then written into the backing
  array that their copy of the entry shares with the entry of the cache. With a failing
  Put: Add on the staged pin of A returns the error and RefCount goes from (1, 1) to
  (1, 0); Remove of A returns the error and IsPinnedBy of A goes from true to false;
  AddStaged on the staged pin of A returns the error and the pin has the new CreatedAt.
\<close>

theorem Put_failure_changes_cache:
  "fst (Add (env_put_fails 3) ''A'' ''c'' st_A) = Some PutFailed \<and>
   RefCount st_A ''c'' = (1, 1) \<and>
   RefCount (snd (Add (env_put_fails 3) ''A'' ''c'' st_A)) ''c'' = (1, 0) \<and>
   fst (Remove (env_put_fails 3) ''A'' ''c'' st_AB) = Some PutFailed \<and>
   IsPinnedBy st_AB ''A'' ''c'' \<and>
   \<not> IsPinnedBy (snd (Remove (env_put_fails 3) ''A'' ''c'' st_AB)) ''A'' ''c'' \<and>
   fst (AddStaged (env_put_fails 3) ''A'' ''c'' st_A) = Some PutFailed \<and>
   ledger st_A ''c'' = Some [\<lparr>APIID = ''A'', Staged = True, CreatedAt = 1\<rparr>] \<and>
   ledger (snd (AddStaged (env_put_fails 3) ''A'' ''c'' st_A)) ''c'' =
     Some [\<lparr>APIID = ''A'', Staged = True, CreatedAt = 3\<rparr>]"
  by code_simp

section \<open>One pin for each tenant\<close>

text \<open>
  AddStaged, Add and RemoveStaged keep the invariant in every environment, and Remove
  keeps it when persist succeeds; two calls of Add for one tenant, the first of which
  persists, leave one pin of the tenant, durable, created at the time of the second.
\<close>

lemma one_pinD: "one_pin_per_tenant s \<Longrightarrow> distinct (map APIID (entry_pins s c))"
  by (cases "ledger s c") (auto simp: one_pin_per_tenant_def entry_pins_ledger)

lemma one_pin_upd:
  assumes "one_pin_per_tenant s" "distinct (map APIID ys)" "ledger s' = (ledger s)(c \<mapsto> ys)"
  shows "one_pin_per_tenant s'"
  using assms by (auto simp: one_pin_per_tenant_def split: if_splits)

lemma one_pin_same:
  assumes "one_pin_per_tenant s" "ledger s' = ledger s"
  shows "one_pin_per_tenant s'"
  using assms by (simp add: one_pin_per_tenant_def)

lemma map_APIID_update:
  "i < length xs \<Longrightarrow> APIID v = APIID (xs ! i) \<Longrightarrow> map APIID (xs[i := v]) = map APIID xs"
  by (simp add: map_update list_update_same_conv)

lemma distinct_swap_remove:
  assumes d: "distinct zs" and i: "i < length zs"
  shows "distinct (butlast (zs[i := last zs]))"
proof (cases "i = length zs - 1")
  case True
  from i have "zs \<noteq> []" by auto
  then have "last zs = zs ! (length zs - 1)" by (rule last_conv_nth)
  with i True have "zs[i := last zs] = zs" by (simp add: list_update_same_conv)
  with d show ?thesis by (simp add: distinct_butlast)
next
  case False
  from i have ne: "zs \<noteq> []" by auto
  from d ne have "last zs \<notin> set (butlast zs)"
    by (metis append_butlast_last_id distinct_append disjoint_iff list.set_intros(1))
  then have "distinct ((butlast zs)[i := last zs])"
    using d by (intro distinct_list_update) (auto simp: distinct_butlast)
  moreover have "butlast (zs[i := last zs]) = (butlast zs)[i := last zs]"
    using False by (simp add: butlast_list_update)
  ultimately show ?thesis by simp
qed

lemma map_swap_remove:
  "xs \<noteq> [] \<Longrightarrow> map f (butlast (xs[i := last xs])) = butlast ((map f xs)[i := last (map f xs)])"
  by (simp add: map_butlast map_update last_map)

lemma AddStaged_one_pin:
  assumes w: "wf_store s" and u: "one_pin_per_tenant s"
  shows "one_pin_per_tenant (snd (AddStaged e iid c s))"
proof (cases "find_idx iid (entry_pins s c)")
  case None
  then have n: "iid \<notin> APIID ` set (entry_pins s c)" by (simp add: find_idx_None)
  show ?thesis
  proof (cases "persist_err e = None")
    case True
    with AddStaged_effect[OF w refl, of e iid c] None
    have "ledger (snd (AddStaged e iid c s)) =
      (ledger s)(c \<mapsto> entry_pins s c @ [\<lparr>APIID = iid, Staged = True, CreatedAt = now e\<rparr>])" by simp
    moreover have "distinct (map APIID (entry_pins s c @ [\<lparr>APIID = iid, Staged = True, CreatedAt = now e\<rparr>]))"
      using one_pinD[OF u, of c] n by auto
    ultimately show ?thesis by (rule one_pin_upd[OF u, rotated])
  next
    case False
    with AddStaged_effect[OF w refl, of e iid c] None
    have "ledger (snd (AddStaged e iid c s)) = ledger s" by simp
    with u show ?thesis by (rule one_pin_same)
  qed
next
  case (Some i)
  from find_idx_Some[OF Some] have i: "i < length (entry_pins s c)" by simp
  show ?thesis
  proof (cases "Staged (entry_pins s c ! i)")
    case False
    with AddStaged_effect[OF w refl, of e iid c] Some
    have "ledger (snd (AddStaged e iid c s)) = ledger s" by simp
    with u show ?thesis by (rule one_pin_same)
  next
    case True
    let ?ys = "(entry_pins s c)[i := (entry_pins s c ! i)\<lparr>CreatedAt := now e\<rparr>]"
    from AddStaged_effect[OF w refl, of e iid c] Some True
    have "ledger (snd (AddStaged e iid c s)) = (ledger s)(c \<mapsto> ?ys)" by simp
    moreover have "map APIID ?ys = map APIID (entry_pins s c)"
      using i by (simp add: map_APIID_update)
    then have "distinct (map APIID ?ys)" using one_pinD[OF u, of c] by simp
    ultimately show ?thesis by (rule one_pin_upd[OF u, rotated])
  qed
qed

lemma Add_one_pin:
  assumes w: "wf_store s" and u: "one_pin_per_tenant s"
  shows "one_pin_per_tenant (snd (Add e iid c s))"
proof (cases "find_idx iid (entry_pins s c)")
  case None
  then have n: "iid \<notin> APIID ` set (entry_pins s c)" by (simp add: find_idx_None)
  show ?thesis
  proof (cases "persist_err e = None")
    case True
    with Add_effect[OF w refl, of e iid c] None
    have "ledger (snd (Add e iid c s)) =
      (ledger s)(c \<mapsto> entry_pins s c @ [\<lparr>APIID = iid, Staged = False, CreatedAt = now e\<rparr>])" by simp
    moreover have "distinct (map APIID (entry_pins s c @ [\<lparr>APIID = iid, Staged = False, CreatedAt = now e\<rparr>]))"
      using one_pinD[OF u, of c] n by auto
    ultimately show ?thesis by (rule one_pin_upd[OF u, rotated])
  next
    case False
    with Add_effect[OF w refl, of e iid c] None
    have "ledger (snd (Add e iid c s)) = ledger s" by simp
    with u show ?thesis by (rule one_pin_same)
  qed
next
  case (Some i)
  from find_idx_Some[OF Some] have i: "i < length (entry_pins s c)"
    and a: "APIID (entry_pins s c ! i) = iid" by simp_all
  let ?ys = "(entry_pins s c)[i := \<lparr>APIID = iid, Staged = False, CreatedAt = now e\<rparr>]"
  from Add_effect[OF w refl, of e iid c] Some
  have "ledger (snd (Add e iid c s)) = (ledger s)(c \<mapsto> ?ys)" by simp
  moreover have "map APIID ?ys = map APIID (entry_pins s c)"
    using i a by (simp add: map_APIID_update)
  then have "distinct (map APIID ?ys)" using one_pinD[OF u, of c] by simp
  ultimately show ?thesis by (rule one_pin_upd[OF u, rotated])
qed

lemma Remove_one_pin:
  assumes w: "wf_store s" and u: "one_pin_per_tenant s" and ok: "persist_err e = None"
  shows "one_pin_per_tenant (snd (Remove e iid c s))"
proof (cases "find_idx iid (entry_pins s c)")
  case None
  with Remove_effect[OF w refl, of e iid c]
  have "ledger (snd (Remove e iid c s)) = ledger s" by simp
  with u show ?thesis by (rule one_pin_same)
next
  case (Some i)
  from find_idx_Some[OF Some] have i: "i < length (entry_pins s c)" by simp
  then have ne: "entry_pins s c \<noteq> []" by auto
  let ?ys = "butlast ((entry_pins s c)[i := last (entry_pins s c)])"
  from Remove_effect[OF w refl, of e iid c] Some ok
  have "ledger (snd (Remove e iid c s)) = (ledger s)(c \<mapsto> ?ys)" by simp
  moreover have "distinct (map APIID ?ys)"
    unfolding map_swap_remove[OF ne]
    by (rule distinct_swap_remove) (use one_pinD[OF u, of c] i in simp_all)
  ultimately show ?thesis by (rule one_pin_upd[OF u, rotated])
qed

lemma RemoveStaged_one_pin:
  assumes w: "wf_store s" and u: "one_pin_per_tenant s"
  shows "one_pin_per_tenant (snd (RemoveStaged e c s))"
  using RemoveStaged_effect[OF w refl, of e c] by (intro one_pin_same[OF u]) simp

lemma filter_unique:
  "distinct (map f zs) \<Longrightarrow> v \<in> set zs \<Longrightarrow> filter (\<lambda>p. f p = f v) zs = [v]"
proof (induction zs)
  case Nil
  then show ?case by simp
next
  case (Cons z zs)
  show ?case
  proof (cases "z = v")
    case True
    from Cons.prems have "f z \<notin> f ` set zs" by simp
    with True have "\<forall>p \<in> set zs. f p \<noteq> f v" by (metis imageI)
    then have "filter (\<lambda>p. f p = f v) zs = []" by (simp add: filter_empty_conv)
    with True show ?thesis by simp
  next
    case False
    with Cons.prems have v: "v \<in> set zs" by simp
    from Cons.prems have "f z \<notin> f ` set zs" by simp
    with v have "f z \<noteq> f v" by (metis imageI)
    with Cons v show ?thesis by simp
  qed
qed

lemma Add_twice:
  assumes w: "wf_store s" and u: "one_pin_per_tenant s" and ok: "persist_err e1 = None"
  shows "\<exists>xs. ledger (snd (Add e2 iid c (snd (Add e1 iid c s)))) c = Some xs \<and>
     filter (\<lambda>p. APIID p = iid) xs = [\<lparr>APIID = iid, Staged = False, CreatedAt = now e2\<rparr>]"
proof -
  let ?s1 = "snd (Add e1 iid c s)"
  let ?s2 = "snd (Add e2 iid c ?s1)"
  let ?v = "\<lparr>APIID = iid, Staged = False, CreatedAt = now e2\<rparr>"
  from Add_effect[OF w refl, of e1 iid c] have w1: "wf_store ?s1" by simp
  have u1: "one_pin_per_tenant ?s1" using w u by (rule Add_one_pin)
  have "\<exists>ys. ledger ?s1 c = Some ys \<and> iid \<in> APIID ` set ys"
  proof (cases "find_idx iid (entry_pins s c)")
    case None
    with Add_effect[OF w refl, of e1 iid c] ok show ?thesis by simp
  next
    case (Some i)
    from find_idx_Some[OF Some] have "i < length (entry_pins s c)" by simp
    then have "\<lparr>APIID = iid, Staged = False, CreatedAt = now e1\<rparr>
      \<in> set ((entry_pins s c)[i := \<lparr>APIID = iid, Staged = False, CreatedAt = now e1\<rparr>])"
      by (simp add: set_update_memI)
    with Add_effect[OF w refl, of e1 iid c] Some show ?thesis by force
  qed
  then obtain ys where ys: "ledger ?s1 c = Some ys" "iid \<in> APIID ` set ys" by blast
  then have ep: "entry_pins ?s1 c = ys" by (simp add: entry_pins_of_ledger)
  from ys(2) have "find_idx iid ys \<noteq> None" by (simp add: find_idx_None)
  then obtain i where f: "find_idx iid ys = Some i" by auto
  from find_idx_Some[OF f] have i: "i < length ys" and a: "APIID (ys ! i) = iid" by simp_all
  from Add_effect[OF w1 refl, of e2 iid c] f ep
  have l2: "ledger ?s2 c = Some (ys[i := ?v])" by simp
  have d: "distinct (map APIID (ys[i := ?v]))"
    using one_pinD[OF u1, of c] ep i a by (simp add: map_APIID_update)
  have m: "?v \<in> set (ys[i := ?v])" using i by (simp add: set_update_memI)
  from filter_unique[OF d m] have "filter (\<lambda>p. APIID p = iid) (ys[i := ?v]) = [?v]" by simp
  with l2 show ?thesis by simp
qed

text \<open>
  Claim C8. In every reachable state an entry should hold at most one pin for each
  tenant. Remove overwrites the cell of the removed pin with the last pin of the shared
  backing array before it persists; when \<open>ds.Put\<close> then fails the cache keeps its
  slice header, and the entry holds the last pin twice. From the reachable state where
  A has staged c and B has pinned it, Remove of A with a failing Put leads to a
  reachable state whose entry of c holds two pins of B. (Every other step keeps the
  invariant, as the lemmas above show.)
\<close>

theorem Remove_Put_failure_duplicates_pin:
  "reachable (snd (Remove (env_put_fails 3) ''A'' ''c'' st_AB)) \<and>
   ledger st_AB ''c'' = Some [\<lparr>APIID = ''A'', Staged = True, CreatedAt = 1\<rparr>,
                              \<lparr>APIID = ''B'', Staged = False, CreatedAt = 2\<rparr>] \<and>
   fst (Remove (env_put_fails 3) ''A'' ''c'' st_AB) = Some PutFailed \<and>
   ledger (snd (Remove (env_put_fails 3) ''A'' ''c'' st_AB)) ''c'' =
     Some [\<lparr>APIID = ''B'', Staged = False, CreatedAt = 2\<rparr>,
           \<lparr>APIID = ''B'', Staged = False, CreatedAt = 2\<rparr>]"
proof -
  have "reachable (snd (Remove (env_put_fails 3) ''A'' ''c'' st_AB))"
    by (intro reachable.intros reachable_st_AB)
  moreover have "ledger st_AB ''c'' = Some [\<lparr>APIID = ''A'', Staged = True, CreatedAt = 1\<rparr>,
                              \<lparr>APIID = ''B'', Staged = False, CreatedAt = 2\<rparr>]"
    by code_simp
  moreover have "fst (Remove (env_put_fails 3) ''A'' ''c'' st_AB) = Some PutFailed"
    by code_simp
  moreover have "ledger (snd (Remove (env_put_fails 3) ''A'' ''c'' st_AB)) ''c'' =
     Some [\<lparr>APIID = ''B'', Staged = False, CreatedAt = 2\<rparr>,
           \<lparr>APIID = ''B'', Staged = False, CreatedAt = 2\<rparr>]"
    by code_simp
  ultimately show ?thesis by blast
qed

section \<open>Removing the pin of a tenant\<close>

lemma persist_err_not_NotPinned: "persist_err e \<noteq> Some NotPinned"
  by (simp add: persist_err_def)

text \<open>
  Claim C6. For every tenant (iid) and Cid c, Remove fails with the not-found error
  ("c1 isn't pinned") exactly when c has no entry. When the entry exists and holds no
  pin of the tenant, the call returns no error and the state is unchanged. Otherwise,
  when persist succeeds, one pin of the tenant is deleted from the entry and all other
  pins are kept (the entries as multisets: the order of the pins may change), the
  entry is written to the datastore, and the other entries are untouched.
\<close>

theorem Remove_spec:
  assumes w: "wf_store s"
  shows
    "(fst (Remove e iid c s) = Some NotPinned \<longleftrightarrow> ledger s c = None) \<and>
     (\<forall>xs. ledger s c = Some xs \<and> iid \<notin> APIID ` set xs \<longrightarrow> Remove e iid c s = (None, s)) \<and>
     (\<forall>xs. ledger s c = Some xs \<and> iid \<in> APIID ` set xs \<and> persist_err e = None \<longrightarrow>
        fst (Remove e iid c s) = None \<and>
        (\<exists>p ys. p \<in> set xs \<and> APIID p = iid \<and> mset ys = mset xs - {#p#} \<and>
           ledger (snd (Remove e iid c s)) = (ledger s)(c \<mapsto> ys) \<and>
           ds (snd (Remove e iid c s)) = (ds s)(c \<mapsto> (c, ys))))"
proof (intro conjI allI impI)
  show "fst (Remove e iid c s) = Some NotPinned \<longleftrightarrow> ledger s c = None"
    using persist_err_not_NotPinned[of e]
    by (auto simp: Remove_result ledger_None split: option.splits)
next
  fix xs
  assume a: "ledger s c = Some xs \<and> iid \<notin> APIID ` set xs"
  then have f: "find_idx iid (entry_pins s c) = None"
    by (simp add: find_idx_None entry_pins_of_ledger)
  from a obtain r where r: "cache s c = Some r"
    by (cases "cache s c") (simp_all add: ledger_def)
  from f r show "Remove e iid c s = (None, s)"
    by (simp add: Remove_def entry_pins_Some)
next
  fix xs
  assume a: "ledger s c = Some xs \<and> iid \<in> APIID ` set xs \<and> persist_err e = None"
  then have ep: "entry_pins s c = xs" by (simp add: entry_pins_of_ledger)
  from a have "find_idx iid xs \<noteq> None" by (simp add: find_idx_None)
  then obtain i where f: "find_idx iid xs = Some i" by auto
  from find_idx_Some[OF f] have i: "i < length xs" and t: "APIID (xs ! i) = iid" by simp_all
  from a obtain r where r: "cache s c = Some r"
    by (cases "cache s c") (simp_all add: ledger_def)
  from f r a ep show "fst (Remove e iid c s) = None"
    by (simp add: Remove_result)
  let ?ys = "butlast (xs[i := last xs])"
  from Remove_effect[OF w refl, of e iid c] f a ep
  have "ledger (snd (Remove e iid c s)) = (ledger s)(c \<mapsto> ?ys)"
    and "ds (snd (Remove e iid c s)) = (ds s)(c \<mapsto> (c, ?ys))"
    by simp_all
  moreover have "mset ?ys = mset xs - {#xs ! i#}" using i by (rule mset_swap_remove)
  moreover have "xs ! i \<in> set xs" using i by simp
  ultimately
  show "\<exists>p ys. p \<in> set xs \<and> APIID p = iid \<and> mset ys = mset xs - {#p#} \<and>
           ledger (snd (Remove e iid c s)) = (ledger s)(c \<mapsto> ys) \<and>
           ds (snd (Remove e iid c s)) = (ds s)(c \<mapsto> (c, ys))"
    using t by blast
qed

theorem Remove_spec_witness:
  "wf_store st_AB \<and>
   ledger st_AB ''c'' = Some [\<lparr>APIID = ''A'', Staged = True, CreatedAt = 1\<rparr>,
                              \<lparr>APIID = ''B'', Staged = False, CreatedAt = 2\<rparr>] \<and>
   ledger st_AB ''d'' = None \<and>
   fst (Remove (env_ok 3) ''A'' ''d'' st_AB) = Some NotPinned \<and>
   Remove (env_ok 3) ''C'' ''c'' st_AB = (None, st_AB) \<and>
   fst (Remove (env_ok 3) ''A'' ''c'' st_AB) = None \<and>
   ledger (snd (Remove (env_ok 3) ''A'' ''c'' st_AB)) ''c'' =
     Some [\<lparr>APIID = ''B'', Staged = False, CreatedAt = 2\<rparr>]"
proof -
  have l: "ledger st_AB ''c'' = Some [\<lparr>APIID = ''A'', Staged = True, CreatedAt = 1\<rparr>,
                              \<lparr>APIID = ''B'', Staged = False, CreatedAt = 2\<rparr>]"
    by code_simp
  have d: "ledger st_AB ''d'' = None" by code_simp
  have pe: "persist_err (env_ok 3) = None" by (simp add: persist_err_def env_ok_def)
  note t = Remove_spec[OF wf_st_AB, of "env_ok 3"]
  have 1: "fst (Remove (env_ok 3) ''A'' ''d'' st_AB) = Some NotPinned"
    using t[of "''A''" "''d''"] d by simp
  have 2: "Remove (env_ok 3) ''C'' ''c'' st_AB = (None, st_AB)"
    using t[of "''C''" "''c''"] l by simp
  from t[of "''A''" "''c''"] l pe
  obtain p ys where p: "p \<in> set [\<lparr>APIID = ''A'', Staged = True, CreatedAt = 1\<rparr>,
                              \<lparr>APIID = ''B'', Staged = False, CreatedAt = 2\<rparr>]" "APIID p = ''A''"
    and ys: "mset ys = mset [\<lparr>APIID = ''A'', Staged = True, CreatedAt = 1\<rparr>,
                              \<lparr>APIID = ''B'', Staged = False, CreatedAt = 2\<rparr>] - {#p#}"
    and l': "ledger (snd (Remove (env_ok 3) ''A'' ''c'' st_AB)) = (ledger st_AB)(''c'' \<mapsto> ys)"
    and 3: "fst (Remove (env_ok 3) ''A'' ''c'' st_AB) = None"
    by auto
  from p have "p = \<lparr>APIID = ''A'', Staged = True, CreatedAt = 1\<rparr>" by auto
  with ys have "mset ys = {#\<lparr>APIID = ''B'', Staged = False, CreatedAt = 2\<rparr>#}" by simp
  then have "ys = [\<lparr>APIID = ''B'', Staged = False, CreatedAt = 2\<rparr>]" by simp
  with l' have 4: "ledger (snd (Remove (env_ok 3) ''A'' ''c'' st_AB)) ''c'' =
     Some [\<lparr>APIID = ''B'', Staged = False, CreatedAt = 2\<rparr>]" by simp
  from wf_st_AB l d 1 2 3 4 show ?thesis by simp
qed

section \<open>Entries without pins\<close>

text \<open>
  Claim C9. A Cid whose set of pins has become empty should no longer be reported:
  IsPinned false, and the Cid not listed by GetAllOnlyStaged. Remove persists the
  entry with the emptied slice and nothing drops it. After A staged c and removed its
  pin again, the entry of c has no pins, yet IsPinned is true (the adapter skips the
  pin in the node for such a Cid, taking it to be pinned by some tenant) and
  GetAllOnlyStaged lists c.
\<close>

theorem emptied_entry_is_still_reported:
  "ledger st_A ''c'' = Some [\<lparr>APIID = ''A'', Staged = True, CreatedAt = 1\<rparr>] \<and>
   fst (Remove (env_ok 3) ''A'' ''c'' st_A) = None \<and>
   ledger st_E ''c'' = Some [] \<and>
   IsPinned st_E ''c'' \<and>
   map Cid (fst (GetAllOnlyStaged [''c''] st_E)) = [''c'']"
  by code_simp

text \<open>
  The same for every store: when Remove deletes the last pin of c and persist
  succeeds, the entry stays with no pins; and for an entry with no pins RefCount is
  (0, 0) and IsPinnedBy is false for every tenant, while IsPinned is true and
  GetAllOnlyStaged lists the Cid (whenever the range over the cache visits it). The
  garbage collector takes such a Cid for a candidate.
\<close>

lemma emptied_entry_is_gc_candidate:
  "fst (getGCCandidates (gc_ok [''c'']) [] 5 \<lparr>ps = st_E, ipfs = []\<rparr>) = [''c'']"
  by code_simp

theorem emptied_entry_stays:
  assumes w: "wf_store s"
  shows
    "(\<forall>p. ledger s c = Some [p] \<and> APIID p = iid \<and> persist_err e = None \<longrightarrow>
        fst (Remove e iid c s) = None \<and> ledger (snd (Remove e iid c s)) c = Some []) \<and>
     (ledger s c = Some [] \<longrightarrow>
        RefCount s c = (0, 0) \<and> (\<forall>t. \<not> IsPinnedBy s t c) \<and> IsPinned s c \<and>
        (c \<in> set order \<longrightarrow> c \<in> set (map Cid (fst (GetAllOnlyStaged order s)))))"
proof (intro conjI allI impI)
  fix p
  assume a: "ledger s c = Some [p] \<and> APIID p = iid \<and> persist_err e = None"
  then have ep: "entry_pins s c = [p]" by (simp add: entry_pins_of_ledger)
  from a have f: "find_idx iid [p] = Some 0" by simp
  from a obtain r where r: "cache s c = Some r"
    by (cases "cache s c") (simp_all add: ledger_def)
  from f r a ep show "fst (Remove e iid c s) = None"
    by (simp add: Remove_result)
  from Remove_effect[OF w refl, of e iid c] f a ep
  show "ledger (snd (Remove e iid c s)) c = Some []" by simp
next
  assume a: "ledger s c = Some []"
  then show "RefCount s c = (0, 0)" using w by (simp add: RefCount_ledger)
  from a show "IsPinned s c" by (simp add: IsPinned_ledger)
  from a show "\<not> IsPinnedBy s t c" for t by (simp add: IsPinnedBy_ledger)
  assume "c \<in> set order"
  with a show "c \<in> set (map Cid (fst (GetAllOnlyStaged order s)))"
    by (simp add: GetAllOnlyStaged_def only_staged_Cids[OF w])
qed

theorem emptied_entry_stays_witness:
  "wf_store st_A \<and> wf_store st_E \<and>
   ledger st_A ''c'' = Some [\<lparr>APIID = ''A'', Staged = True, CreatedAt = 1\<rparr>] \<and>
   ledger st_E ''c'' = Some [] \<and>
   RefCount st_E ''c'' = (0, 0) \<and> \<not> IsPinnedBy st_E ''A'' ''c'' \<and> IsPinned st_E ''c'' \<and>
   ''c'' \<in> set (map Cid (fst (GetAllOnlyStaged [''c''] st_E)))"
proof -
  have wA: "wf_store st_A" by (rule reachable_wf[OF reachable_st_A])
  have wE: "wf_store st_E" by (rule reachable_wf[OF reachable_st_E])
  have l: "ledger st_A ''c'' = Some [\<lparr>APIID = ''A'', Staged = True, CreatedAt = 1\<rparr>]"
    by code_simp
  have pe: "persist_err (env_ok 3) = None" by (simp add: persist_err_def env_ok_def)
  from emptied_entry_stays[OF wA, of "''c''" "''A''" "env_ok 3"] l pe
  have e: "ledger st_E ''c'' = Some []" by (simp add: st_E_def)
  from emptied_entry_stays[OF wE, of "''c''" "''A''" "env_ok 3" "[''c'']"] e
  have "RefCount st_E ''c'' = (0, 0) \<and> \<not> IsPinnedBy st_E ''A'' ''c'' \<and> IsPinned st_E ''c'' \<and>
    ''c'' \<in> set (map Cid (fst (GetAllOnlyStaged [''c''] st_E)))"
    by simp
  with wA wE l e show ?thesis by simp
qed

section \<open>Garbage collection of staged pins\<close>

lemma reachable_st_2: "reachable st_2"
  unfolding st_2_def by (intro reachable.intros)

lemma wf_st_2: "wf_store st_2"
  by (rule reachable_wf[OF reachable_st_2])

lemma dom_cache_st_2: "dom (cache st_2) = {''c1'', ''c2''}"
  by (auto simp: st_2_def AddStaged_def persist_def load_def append_slice_def elems_def
      nil_slice_def marshal_def empty_store_def env_ok_def Let_def split: if_splits)

lemma getGCCandidates_eq:
  "getGCCandidates g ex t ci =
     (scan_candidates (heap (ps ci)) ex t (only_staged (ps ci) (range_order g)), None)"
  by (simp add: getGCCandidates_def GetAllOnlyStaged_def)

lemma GCStaged_eq:
  "GCStaged g ex t ci =
     (case unpin_all g (fst (getGCCandidates g ex t ci)) ci of
        (Some err, ci') \<Rightarrow> (([], Some (UnpinningCid err)), ci')
      | (None, ci') \<Rightarrow> ((fst (getGCCandidates g ex t ci), None), ci'))"
  by (simp add: GCStaged_def getGCCandidates_eq split: prod.splits option.splits)

lemma candidates_filter:
  assumes w: "wf_store s"
  shows "scan_candidates (heap s) ex t (only_staged s order) =
         filter (\<lambda>c. case ledger s c of
                        None \<Rightarrow> False
                      | Some xs \<Rightarrow> all_staged xs \<and> c \<notin> set ex \<and> \<not> too_recent t xs) order"
proof (induction order)
  case Nil
  show ?case by simp
next
  case (Cons k ks)
  show ?case
  proof (cases "cache s k")
    case None
    then show ?thesis using Cons by (simp add: ledger_def)
  next
    case (Some v)
    from wf_storeD[OF w Some] have "Cid v = k" by simp
    then show ?thesis using Cons Some by (simp add: ledger_def)
  qed
qed

lemma candidates_set:
  assumes w: "wf_store (ps ci)" and o: "set (range_order g) = dom (cache (ps ci))"
  shows "set (fst (getGCCandidates g ex t ci)) =
         {c. \<exists>xs. ledger (ps ci) c = Some xs \<and> (\<forall>p \<in> set xs. Staged p) \<and> c \<notin> set ex \<and>
                   (\<forall>p \<in> set xs. CreatedAt p \<le> t)}"
proof -
  have "c \<in> set (range_order g)" if "ledger (ps ci) c = Some xs" for c xs
    using that o by (auto simp: ledger_def split: option.splits)
  then show ?thesis
    unfolding getGCCandidates_eq fst_conv candidates_filter[OF w]
    by (auto simp: all_staged_iff too_recent_iff not_less split: option.splits)
qed

lemma unpinStaged_mismatch:
  "fst (RefCount (ps ci) c) \<noteq> snd (RefCount (ps ci) c) \<Longrightarrow>
   unpinStaged g c ci =
     (Some (NotOnlyStagePins c (fst (RefCount (ps ci) c)) (snd (RefCount (ps ci) c))), ci)"
  by (cases "RefCount (ps ci) c") (simp add: unpinStaged_def)

lemma unpinStaged_match:
  assumes "fst (RefCount (ps ci) c) = snd (RefCount (ps ci) c)"
  shows "ipfs (snd (unpinStaged g c ci)) = ipfs ci @ [c] \<and>
     (if rm_ok g c
      then ps (snd (unpinStaged g c ci)) = snd (RemoveStaged (store_env g c) c (ps ci)) \<and>
           fst (unpinStaged g c ci) =
             map_option (RemovingStaged c) (fst (RemoveStaged (store_env g c) c (ps ci)))
      else ps (snd (unpinStaged g c ci)) = ps ci \<and>
           fst (unpinStaged g c ci) = Some NodeUnpinFailed)"
  using assms by (auto simp: unpinStaged_def Let_def split: prod.splits option.splits)

lemma unpin_all_error:
  "unpin_all g cs ci = (Some err, ci') \<Longrightarrow>
   \<exists>pre c rest ci1. cs = pre @ c # rest \<and> unpin_all g pre ci = (None, ci1) \<and>
      unpinStaged g c ci1 = (Some err, ci')"
proof (induction cs arbitrary: ci)
  case Nil
  then show ?case by simp
next
  case (Cons c cs)
  obtain r ci2 where u: "unpinStaged g c ci = (r, ci2)" by (cases "unpinStaged g c ci")
  show ?case
  proof (cases r)
    case (Some e)
    with Cons.prems u have "unpinStaged g c ci = (Some err, ci')" by simp
    then have "c # cs = [] @ c # cs \<and> unpin_all g [] ci = (None, ci) \<and>
      unpinStaged g c ci = (Some err, ci')" by simp
    then show ?thesis by blast
  next
    case None
    with Cons.prems u have "unpin_all g cs ci2 = (Some err, ci')" by simp
    from Cons.IH[OF this] obtain pre c' rest ci1 where
      d: "cs = pre @ c' # rest" "unpin_all g pre ci2 = (None, ci1)"
         "unpinStaged g c' ci1 = (Some err, ci')" by blast
    from d(2) u None have "unpin_all g (c # pre) ci = (None, ci1)" by simp
    with d(1,3) have "c # cs = (c # pre) @ c' # rest \<and> unpin_all g (c # pre) ci = (None, ci1) \<and>
      unpinStaged g c' ci1 = (Some err, ci')" by simp
    then show ?thesis by blast
  qed
qed

text \<open>
  The loop of GCStaged, told without the loop: it ends without error exactly when
  there is a chain of states, one call of unpinStaged on each candidate in turn, every
  call without error; it ends with an error exactly when such a chain reaches a
  candidate whose call of unpinStaged returns that error.
\<close>

lemma unpin_all_ok_iff:
  "unpin_all g cs ci = (None, ci') \<longleftrightarrow>
   (\<exists>sts. length sts = Suc (length cs) \<and> sts ! 0 = ci \<and> sts ! length cs = ci' \<and>
      (\<forall>i < length cs. unpinStaged g (cs ! i) (sts ! i) = (None, sts ! Suc i)))"
proof (induction cs arbitrary: ci)
  case Nil
  show ?case
  proof
    assume "unpin_all g [] ci = (None, ci')"
    then have "length [ci] = Suc (length ([]::cid list)) \<and> [ci] ! 0 = ci \<and> [ci] ! length ([]::cid list) = ci'"
      by simp
    then show "\<exists>sts. length sts = Suc (length ([]::cid list)) \<and> sts ! 0 = ci \<and> sts ! length ([]::cid list) = ci' \<and>
      (\<forall>i < length ([]::cid list). unpinStaged g ([] ! i) (sts ! i) = (None, sts ! Suc i))"
      by (intro exI[of _ "[ci]"]) simp
  next
    assume "\<exists>sts. length sts = Suc (length ([]::cid list)) \<and> sts ! 0 = ci \<and> sts ! length ([]::cid list) = ci' \<and>
      (\<forall>i < length ([]::cid list). unpinStaged g ([] ! i) (sts ! i) = (None, sts ! Suc i))"
    then show "unpin_all g [] ci = (None, ci')" by auto
  qed
next
  case (Cons c cs)
  show ?case
  proof
    assume a: "unpin_all g (c # cs) ci = (None, ci')"
    obtain r x where u: "unpinStaged g c ci = (r, x)" by (cases "unpinStaged g c ci")
    with a have r: "r = None" and t: "unpin_all g cs x = (None, ci')"
      by (cases r; simp)+
    from t Cons.IH[of x] obtain sts where s: "length sts = Suc (length cs)" "sts ! 0 = x"
      "sts ! length cs = ci'"
      "\<forall>i < length cs. unpinStaged g (cs ! i) (sts ! i) = (None, sts ! Suc i)" by blast
    have "\<forall>i < length (c # cs). unpinStaged g ((c # cs) ! i) ((ci # sts) ! i) = (None, (ci # sts) ! Suc i)"
    proof (intro allI impI)
      fix i assume "i < length (c # cs)"
      then show "unpinStaged g ((c # cs) ! i) ((ci # sts) ! i) = (None, (ci # sts) ! Suc i)"
        using s u r by (cases i) simp_all
    qed
    with s have "length (ci # sts) = Suc (length (c # cs)) \<and> (ci # sts) ! 0 = ci \<and>
      (ci # sts) ! length (c # cs) = ci' \<and>
      (\<forall>i < length (c # cs). unpinStaged g ((c # cs) ! i) ((ci # sts) ! i) = (None, (ci # sts) ! Suc i))"
      by simp
    then show "\<exists>sts. length sts = Suc (length (c # cs)) \<and> sts ! 0 = ci \<and> sts ! length (c # cs) = ci' \<and>
      (\<forall>i < length (c # cs). unpinStaged g ((c # cs) ! i) (sts ! i) = (None, sts ! Suc i))"
      by (rule exI)
  next
    assume "\<exists>sts. length sts = Suc (length (c # cs)) \<and> sts ! 0 = ci \<and> sts ! length (c # cs) = ci' \<and>
      (\<forall>i < length (c # cs). unpinStaged g ((c # cs) ! i) (sts ! i) = (None, sts ! Suc i))"
    then obtain sts where s: "length sts = Suc (length (c # cs))" "sts ! 0 = ci"
      "sts ! length (c # cs) = ci'"
      and st: "\<forall>i < length (c # cs). unpinStaged g ((c # cs) ! i) (sts ! i) = (None, sts ! Suc i)"
      by blast
    from s(1) obtain a sts' where e: "sts = a # sts'" by (cases sts) simp_all
    with s have a: "a = ci" and l: "length sts' = Suc (length cs)" and f: "sts' ! length cs = ci'"
      by simp_all
    from st e a have u: "unpinStaged g c ci = (None, sts' ! 0)" by force
    have "\<forall>i < length cs. unpinStaged g (cs ! i) (sts' ! i) = (None, sts' ! Suc i)"
    proof (intro allI impI)
      fix i assume "i < length cs"
      then have "Suc i < length (c # cs)" by simp
      with st have "unpinStaged g ((c # cs) ! Suc i) (sts ! Suc i) = (None, sts ! Suc (Suc i))" by blast
      then show "unpinStaged g (cs ! i) (sts' ! i) = (None, sts' ! Suc i)" by (simp add: e)
    qed
    with l f have "\<exists>sts. length sts = Suc (length cs) \<and> sts ! 0 = sts' ! 0 \<and> sts ! length cs = ci' \<and>
      (\<forall>i < length cs. unpinStaged g (cs ! i) (sts ! i) = (None, sts ! Suc i))" by blast
    with Cons.IH[of "sts' ! 0"] have "unpin_all g cs (sts' ! 0) = (None, ci')" by simp
    with u show "unpin_all g (c # cs) ci = (None, ci')" by simp
  qed
qed

lemma unpin_all_err_iff:
  "unpin_all g cs ci = (Some err, ci') \<longleftrightarrow>
   (\<exists>k sts. k < length cs \<and> length sts = Suc k \<and> sts ! 0 = ci \<and>
      (\<forall>i < k. unpinStaged g (cs ! i) (sts ! i) = (None, sts ! Suc i)) \<and>
      unpinStaged g (cs ! k) (sts ! k) = (Some err, ci'))"
proof (induction cs arbitrary: ci)
  case Nil
  show ?case by simp
next
  case (Cons c cs)
  show ?case
  proof
    assume a: "unpin_all g (c # cs) ci = (Some err, ci')"
    obtain r x where u: "unpinStaged g c ci = (r, x)" by (cases "unpinStaged g c ci")
    show "\<exists>k sts. k < length (c # cs) \<and> length sts = Suc k \<and> sts ! 0 = ci \<and>
      (\<forall>i < k. unpinStaged g ((c # cs) ! i) (sts ! i) = (None, sts ! Suc i)) \<and>
      unpinStaged g ((c # cs) ! k) (sts ! k) = (Some err, ci')"
    proof (cases r)
      case (Some e)
      with a u have "unpinStaged g c ci = (Some err, ci')" by simp
      then have "0 < length (c # cs) \<and> length [ci] = Suc 0 \<and> [ci] ! 0 = ci \<and>
        (\<forall>i < 0. unpinStaged g ((c # cs) ! i) ([ci] ! i) = (None, [ci] ! Suc i)) \<and>
        unpinStaged g ((c # cs) ! 0) ([ci] ! 0) = (Some err, ci')" by simp
      then show ?thesis by blast
    next
      case None
      with a u have "unpin_all g cs x = (Some err, ci')" by simp
      with Cons.IH[of x] obtain k sts where s: "k < length cs" "length sts = Suc k" "sts ! 0 = x"
        "\<forall>i < k. unpinStaged g (cs ! i) (sts ! i) = (None, sts ! Suc i)"
        "unpinStaged g (cs ! k) (sts ! k) = (Some err, ci')" by blast
      have "\<forall>i < Suc k. unpinStaged g ((c # cs) ! i) ((ci # sts) ! i) = (None, (ci # sts) ! Suc i)"
      proof (intro allI impI)
        fix i assume "i < Suc k"
        then show "unpinStaged g ((c # cs) ! i) ((ci # sts) ! i) = (None, (ci # sts) ! Suc i)"
          using s u None by (cases i) simp_all
      qed
      with s have "Suc k < length (c # cs) \<and> length (ci # sts) = Suc (Suc k) \<and> (ci # sts) ! 0 = ci \<and>
        (\<forall>i < Suc k. unpinStaged g ((c # cs) ! i) ((ci # sts) ! i) = (None, (ci # sts) ! Suc i)) \<and>
        unpinStaged g ((c # cs) ! Suc k) ((ci # sts) ! Suc k) = (Some err, ci')" by simp
      then show ?thesis by blast
    qed
  next
    assume "\<exists>k sts. k < length (c # cs) \<and> length sts = Suc k \<and> sts ! 0 = ci \<and>
      (\<forall>i < k. unpinStaged g ((c # cs) ! i) (sts ! i) = (None, sts ! Suc i)) \<and>
      unpinStaged g ((c # cs) ! k) (sts ! k) = (Some err, ci')"
    then obtain k sts where s: "k < length (c # cs)" "length sts = Suc k" "sts ! 0 = ci"
      and st: "\<forall>i < k. unpinStaged g ((c # cs) ! i) (sts ! i) = (None, sts ! Suc i)"
      and fl: "unpinStaged g ((c # cs) ! k) (sts ! k) = (Some err, ci')" by blast
    show "unpin_all g (c # cs) ci = (Some err, ci')"
    proof (cases k)
      case 0
      with fl s show ?thesis by simp
    next
      case (Suc j)
      from s(2) obtain a sts' where e: "sts = a # sts'" by (cases sts) simp_all
      with s Suc have a: "a = ci" and l: "length sts' = Suc j" and j: "j < length cs" by simp_all
      from st e a Suc have u: "unpinStaged g c ci = (None, sts' ! 0)" by force
      have "\<forall>i < j. unpinStaged g (cs ! i) (sts' ! i) = (None, sts' ! Suc i)"
      proof (intro allI impI)
        fix i assume "i < j"
        then have "Suc i < k" using Suc by simp
        with st have "unpinStaged g ((c # cs) ! Suc i) (sts ! Suc i) = (None, sts ! Suc (Suc i))" by blast
        then show "unpinStaged g (cs ! i) (sts' ! i) = (None, sts' ! Suc i)" by (simp add: e)
      qed
      moreover from fl Suc e have "unpinStaged g (cs ! j) (sts' ! j) = (Some err, ci')" by simp
      ultimately have "\<exists>k sts. k < length cs \<and> length sts = Suc k \<and> sts ! 0 = sts' ! 0 \<and>
        (\<forall>i < k. unpinStaged g (cs ! i) (sts ! i) = (None, sts ! Suc i)) \<and>
        unpinStaged g (cs ! k) (sts ! k) = (Some err, ci')" using j l by blast
      with Cons.IH[of "sts' ! 0"] have "unpin_all g cs (sts' ! 0) = (Some err, ci')" by simp
      with u show ?thesis by simp
    qed
  qed
qed

lemma GCStaged_ok_iff:
  "GCStaged g ex t ci = ((lst, None), ci') \<longleftrightarrow>
   lst = fst (getGCCandidates g ex t ci) \<and> unpin_all g (fst (getGCCandidates g ex t ci)) ci = (None, ci')"
  by (auto simp: GCStaged_eq split: prod.splits option.splits)

lemma GCStaged_err_iff:
  "GCStaged g ex t ci = ((lst, Some e), ci') \<longleftrightarrow>
   lst = [] \<and> (\<exists>err. e = UnpinningCid err \<and>
      unpin_all g (fst (getGCCandidates g ex t ci)) ci = (Some err, ci'))"
  by (auto simp: GCStaged_eq split: prod.splits option.splits)

text \<open>
  Claim C4. For every exclusion list and cutoff, the candidates of GCStaged are exactly
  the Cids of the ledger whose entry holds staged pins only (an entry without pins is
  among them), that are not excluded, and all of whose pins have CreatedAt at or before
  the cutoff, each once, the range over the cache visiting every key once. GCStaged
  calls unpinStaged on each candidate in turn, each call in the state the one before
  left: it returns the candidates and no error exactly when every one of these calls
  returned no error, and the nil list and an error exactly when the calls before some
  candidate returned no error and the call for it returned that error. unpinStaged
  first compares the two counts of RefCount: when they differ it returns an error for
  that Cid and has neither called the node nor touched the ledger; when they agree it
  sends the unpin to the node, and only when the node has answered without error does
  it call RemoveStaged.
\<close>

theorem GC_selects_and_rechecks:
  assumes w: "wf_store (ps ci)"
    and o: "set (range_order g) = dom (cache (ps ci))" and d: "distinct (range_order g)"
  shows
    "snd (getGCCandidates g ex t ci) = None \<and>
     distinct (fst (getGCCandidates g ex t ci)) \<and>
     set (fst (getGCCandidates g ex t ci)) =
       {c. \<exists>xs. ledger (ps ci) c = Some xs \<and> (\<forall>p \<in> set xs. Staged p) \<and> c \<notin> set ex \<and>
                 (\<forall>p \<in> set xs. CreatedAt p \<le> t)} \<and>
     GCStaged g ex t ci =
       (case unpin_all g (fst (getGCCandidates g ex t ci)) ci of
          (Some err, ci') \<Rightarrow> (([], Some (UnpinningCid err)), ci')
        | (None, ci') \<Rightarrow> ((fst (getGCCandidates g ex t ci), None), ci')) \<and>
     (\<forall>lst ci'. GCStaged g ex t ci = ((lst, None), ci') \<longleftrightarrow>
        lst = fst (getGCCandidates g ex t ci) \<and>
        (\<exists>sts. length sts = Suc (length (fst (getGCCandidates g ex t ci))) \<and>
           sts ! 0 = ci \<and> sts ! length (fst (getGCCandidates g ex t ci)) = ci' \<and>
           (\<forall>i < length (fst (getGCCandidates g ex t ci)).
              unpinStaged g (fst (getGCCandidates g ex t ci) ! i) (sts ! i) = (None, sts ! Suc i)))) \<and>
     (\<forall>lst e ci'. GCStaged g ex t ci = ((lst, Some e), ci') \<longleftrightarrow>
        lst = [] \<and>
        (\<exists>err k sts. e = UnpinningCid err \<and> k < length (fst (getGCCandidates g ex t ci)) \<and>
           length sts = Suc k \<and> sts ! 0 = ci \<and>
           (\<forall>i < k. unpinStaged g (fst (getGCCandidates g ex t ci) ! i) (sts ! i) = (None, sts ! Suc i)) \<and>
           unpinStaged g (fst (getGCCandidates g ex t ci) ! k) (sts ! k) = (Some err, ci'))) \<and>
     (\<forall>c g' (ci'::CoreIpfs). fst (RefCount (ps ci') c) \<noteq> snd (RefCount (ps ci') c) \<longrightarrow>
        unpinStaged g' c ci' =
          (Some (NotOnlyStagePins c (fst (RefCount (ps ci') c)) (snd (RefCount (ps ci') c))), ci')) \<and>
     (\<forall>c g' (ci'::CoreIpfs). fst (RefCount (ps ci') c) = snd (RefCount (ps ci') c) \<longrightarrow>
        ipfs (snd (unpinStaged g' c ci')) = ipfs ci' @ [c] \<and>
        (if rm_ok g' c
         then ps (snd (unpinStaged g' c ci')) = snd (RemoveStaged (store_env g' c) c (ps ci')) \<and>
              fst (unpinStaged g' c ci') =
                map_option (RemovingStaged c) (fst (RemoveStaged (store_env g' c) c (ps ci')))
         else ps (snd (unpinStaged g' c ci')) = ps ci' \<and>
              fst (unpinStaged g' c ci') = Some NodeUnpinFailed))"
proof -
  let ?cands = "fst (getGCCandidates g ex t ci)"
  have 1: "snd (getGCCandidates g ex t ci) = None" by (simp add: getGCCandidates_eq)
  have 2: "distinct ?cands"
    unfolding getGCCandidates_eq fst_conv candidates_filter[OF w] using d by simp
  have 3: "set ?cands =
       {c. \<exists>xs. ledger (ps ci) c = Some xs \<and> (\<forall>p \<in> set xs. Staged p) \<and> c \<notin> set ex \<and>
                 (\<forall>p \<in> set xs. CreatedAt p \<le> t)}"
    using w o by (rule candidates_set)
  have 4: "GCStaged g ex t ci =
       (case unpin_all g ?cands ci of
          (Some err, ci') \<Rightarrow> (([], Some (UnpinningCid err)), ci')
        | (None, ci') \<Rightarrow> ((?cands, None), ci'))"
    by (rule GCStaged_eq)
  have 5: "\<forall>lst ci'. GCStaged g ex t ci = ((lst, None), ci') \<longleftrightarrow>
        lst = ?cands \<and>
        (\<exists>sts. length sts = Suc (length ?cands) \<and> sts ! 0 = ci \<and> sts ! length ?cands = ci' \<and>
           (\<forall>i < length ?cands. unpinStaged g (?cands ! i) (sts ! i) = (None, sts ! Suc i)))"
    unfolding GCStaged_ok_iff unpin_all_ok_iff by blast
  have 6: "\<forall>lst e ci'. GCStaged g ex t ci = ((lst, Some e), ci') \<longleftrightarrow>
        lst = [] \<and>
        (\<exists>err k sts. e = UnpinningCid err \<and> k < length ?cands \<and> length sts = Suc k \<and> sts ! 0 = ci \<and>
           (\<forall>i < k. unpinStaged g (?cands ! i) (sts ! i) = (None, sts ! Suc i)) \<and>
           unpinStaged g (?cands ! k) (sts ! k) = (Some err, ci'))"
    unfolding GCStaged_err_iff unpin_all_err_iff by blast
  have 7: "\<forall>c g' (ci'::CoreIpfs). fst (RefCount (ps ci') c) \<noteq> snd (RefCount (ps ci') c) \<longrightarrow>
        unpinStaged g' c ci' =
          (Some (NotOnlyStagePins c (fst (RefCount (ps ci') c)) (snd (RefCount (ps ci') c))), ci')"
    by (simp add: unpinStaged_mismatch)
  have 8: "\<forall>c g' (ci'::CoreIpfs). fst (RefCount (ps ci') c) = snd (RefCount (ps ci') c) \<longrightarrow>
        ipfs (snd (unpinStaged g' c ci')) = ipfs ci' @ [c] \<and>
        (if rm_ok g' c
         then ps (snd (unpinStaged g' c ci')) = snd (RemoveStaged (store_env g' c) c (ps ci')) \<and>
              fst (unpinStaged g' c ci') =
                map_option (RemovingStaged c) (fst (RemoveStaged (store_env g' c) c (ps ci')))
         else ps (snd (unpinStaged g' c ci')) = ps ci' \<and>
              fst (unpinStaged g' c ci') = Some NodeUnpinFailed)"
    using unpinStaged_match by blast
  from 1 2 3 4 5 6 7 8 show ?thesis by (intro conjI)
qed

theorem GC_selects_and_rechecks_witness:
  "wf_store (ps ci_2) \<and>
   set (range_order (gc_ok [''c1'', ''c2''])) = dom (cache (ps ci_2)) \<and>
   distinct (range_order (gc_ok [''c1'', ''c2''])) \<and>
   fst (getGCCandidates (gc_ok [''c1'', ''c2'']) [''c1''] 5 ci_2) = [''c2''] \<and>
   set (fst (getGCCandidates (gc_ok [''c1'', ''c2'']) [''c1''] 5 ci_2)) =
     {c. \<exists>xs. ledger (ps ci_2) c = Some xs \<and> (\<forall>p \<in> set xs. Staged p) \<and> c \<notin> set [''c1''] \<and>
               (\<forall>p \<in> set xs. CreatedAt p \<le> 5)} \<and>
   RefCount (ps ci_2) ''c2'' = (1, 1) \<and>
   ipfs (snd (unpinStaged (gc_ok [''c1'', ''c2'']) ''c2'' ci_2)) = [''c2''] \<and>
   RefCount st_AB ''c'' = (2, 1) \<and>
   unpinStaged (gc_ok [''c'']) ''c'' \<lparr>ps = st_AB, ipfs = []\<rparr> =
     (Some (NotOnlyStagePins ''c'' 2 1), \<lparr>ps = st_AB, ipfs = []\<rparr>) \<and>
   fst (getGCCandidates (gc_ok [''c1'', ''c2'']) [] 5 ci_2) = [''c1'', ''c2''] \<and>
   fst (unpinStaged (gc_ok [''c1'', ''c2'']) ''c1'' ci_2) = None \<and>
   fst (unpinStaged (gc_ok [''c1'', ''c2'']) ''c2''
          (snd (unpinStaged (gc_ok [''c1'', ''c2'']) ''c1'' ci_2))) = None \<and>
   GCStaged (gc_ok [''c1'', ''c2'']) [] 5 ci_2 =
     (([''c1'', ''c2''], None),
      snd (unpinStaged (gc_ok [''c1'', ''c2'']) ''c2''
             (snd (unpinStaged (gc_ok [''c1'', ''c2'']) ''c1'' ci_2)))) \<and>
   fst (unpinStaged (gc_rm_fails [''c1'', ''c2''] ''c1'') ''c1'' ci_2) = Some NodeUnpinFailed \<and>
   GCStaged (gc_rm_fails [''c1'', ''c2''] ''c1'') [] 5 ci_2 =
     (([], Some (UnpinningCid NodeUnpinFailed)),
      snd (unpinStaged (gc_rm_fails [''c1'', ''c2''] ''c1'') ''c1'' ci_2))"
proof -
  let ?g = "gc_ok [''c1'', ''c2'']"
  let ?f = "gc_rm_fails [''c1'', ''c2''] ''c1''"
  have w: "wf_store (ps ci_2)" by (simp add: ci_2_def wf_st_2)
  have o: "set (range_order ?g) = dom (cache (ps ci_2))"
    by (simp add: ci_2_def gc_ok_def dom_cache_st_2)
  have d: "distinct (range_order ?g)" by (simp add: gc_ok_def)
  have o': "set (range_order ?f) = dom (cache (ps ci_2))"
    by (simp add: ci_2_def gc_rm_fails_def dom_cache_st_2)
  have d': "distinct (range_order ?f)" by (simp add: gc_rm_fails_def)
  note t = GC_selects_and_rechecks[OF w o d, of "[''c1'']" 5]
  note t0 = GC_selects_and_rechecks[OF w o d, of "[]" 5]
  note tf = GC_selects_and_rechecks[OF w o' d', of "[]" 5]
  note t3 = t[THEN conjunct2, THEN conjunct2, THEN conjunct1]
  note t7 = t[THEN conjunct2, THEN conjunct2, THEN conjunct2, THEN conjunct2, THEN conjunct2,
      THEN conjunct2, THEN conjunct1]
  note t8 = t[THEN conjunct2, THEN conjunct2, THEN conjunct2, THEN conjunct2, THEN conjunct2,
      THEN conjunct2, THEN conjunct2]
  note t5 = t0[THEN conjunct2, THEN conjunct2, THEN conjunct2, THEN conjunct2, THEN conjunct1]
  note t6 = tf[THEN conjunct2, THEN conjunct2, THEN conjunct2, THEN conjunct2, THEN conjunct2,
      THEN conjunct1]
  have c: "fst (getGCCandidates ?g [''c1''] 5 ci_2) = [''c2'']"
    by code_simp
  have r2: "RefCount (ps ci_2) ''c2'' = (1, 1)" by code_simp
  have rc: "RefCount st_AB ''c'' = (2, 1)" by code_simp
  from t8 r2 have u: "ipfs (snd (unpinStaged ?g ''c2'' ci_2)) = [''c2'']"
    by (simp add: ci_2_def)
  from t7 rc have m: "unpinStaged (gc_ok [''c'']) ''c'' \<lparr>ps = st_AB, ipfs = []\<rparr> =
     (Some (NotOnlyStagePins ''c'' 2 1), \<lparr>ps = st_AB, ipfs = []\<rparr>)"
    by simp
  from t3 have s: "set (fst (getGCCandidates ?g [''c1''] 5 ci_2)) =
     {c. \<exists>xs. ledger (ps ci_2) c = Some xs \<and> (\<forall>p \<in> set xs. Staged p) \<and> c \<notin> set [''c1''] \<and>
               (\<forall>p \<in> set xs. CreatedAt p \<le> 5)}" .
  have c0: "fst (getGCCandidates ?g [] 5 ci_2) = [''c1'', ''c2'']" by code_simp
  have u1: "fst (unpinStaged ?g ''c1'' ci_2) = None" by code_simp
  have u2: "fst (unpinStaged ?g ''c2'' (snd (unpinStaged ?g ''c1'' ci_2))) = None" by code_simp
  let ?s1 = "snd (unpinStaged ?g ''c1'' ci_2)"
  let ?s2 = "snd (unpinStaged ?g ''c2'' ?s1)"
  have ch: "\<exists>sts. length sts = Suc (length [''c1'', ''c2'']) \<and> sts ! 0 = ci_2 \<and>
      sts ! length [''c1'', ''c2''] = ?s2 \<and>
      (\<forall>i < length [''c1'', ''c2'']. unpinStaged ?g ([''c1'', ''c2''] ! i) (sts ! i) = (None, sts ! Suc i))"
  proof (intro exI[of _ "[ci_2, ?s1, ?s2]"] conjI allI impI)
    fix i assume "i < length [''c1'', ''c2'']"
    then have "i = 0 \<or> i = 1" by auto
    then show "unpinStaged ?g ([''c1'', ''c2''] ! i) ([ci_2, ?s1, ?s2] ! i) = (None, [ci_2, ?s1, ?s2] ! Suc i)"
      using u1 u2 by (auto simp: prod_eq_iff)
  qed simp_all
  note k5 = t5[THEN spec, of "[''c1'', ''c2'']", THEN spec, of ?s2]
  from k5 ch c0 have gok: "GCStaged ?g [] 5 ci_2 = (([''c1'', ''c2''], None), ?s2)" by simp
  have cf: "fst (getGCCandidates ?f [] 5 ci_2) = [''c1'', ''c2'']" by code_simp
  have f1: "fst (unpinStaged ?f ''c1'' ci_2) = Some NodeUnpinFailed" by code_simp
  let ?x = "snd (unpinStaged ?f ''c1'' ci_2)"
  have chf: "\<exists>err k sts. UnpinningCid NodeUnpinFailed = UnpinningCid err \<and> k < length [''c1'', ''c2''] \<and>
           length sts = Suc k \<and> sts ! 0 = ci_2 \<and>
           (\<forall>i < k. unpinStaged ?f ([''c1'', ''c2''] ! i) (sts ! i) = (None, sts ! Suc i)) \<and>
           unpinStaged ?f ([''c1'', ''c2''] ! k) (sts ! k) = (Some err, ?x)"
    using f1 by (intro exI[of _ NodeUnpinFailed] exI[of _ 0] exI[of _ "[ci_2]"]) (simp add: prod_eq_iff)
  note k6 = t6[THEN spec, of "[]", THEN spec, of "UnpinningCid NodeUnpinFailed", THEN spec, of ?x]
  from k6 chf cf have gf: "GCStaged ?f [] 5 ci_2 = (([], Some (UnpinningCid NodeUnpinFailed)), ?x)"
    by simp
  from w o d c s r2 u rc m c0 u1 u2 gok f1 gf show ?thesis by (intro conjI)
qed

text \<open>
  Claim C2 says that when an unpin fails partway through GCStaged, the Cids reclaimed
  so far are returned together with the error. GCStaged returns \<open>nil, err\<close> from inside
  its loop. With c1 and c2 staged and the node refusing to unpin c2: c1 is unpinned and
  its key deleted from the datastore, the node has received both requests, and the
  result is the nil list with the error.
\<close>

theorem GCStaged_drops_reclaimed_on_error:
  "fst (GCStaged (gc_rm_fails [''c1'', ''c2''] ''c2'') [] 5 ci_2) =
     ([], Some (UnpinningCid NodeUnpinFailed)) \<and>
   fst (getGCCandidates (gc_rm_fails [''c1'', ''c2''] ''c2'') [] 5 ci_2) = [''c1'', ''c2''] \<and>
   fst (unpinStaged (gc_rm_fails [''c1'', ''c2''] ''c2'') ''c1'' ci_2) = None \<and>
   ipfs (snd (GCStaged (gc_rm_fails [''c1'', ''c2''] ''c2'') [] 5 ci_2)) = [''c1'', ''c2''] \<and>
   ds (ps ci_2) ''c1'' \<noteq> None \<and>
   ds (ps (snd (GCStaged (gc_rm_fails [''c1'', ''c2''] ''c2'') [] 5 ci_2))) ''c1'' = None"
  by code_simp

lemma unpinStaged_node_fails:
  "fst (RefCount (ps ci) c) = snd (RefCount (ps ci) c) \<Longrightarrow> \<not> rm_ok g c \<Longrightarrow>
   unpinStaged g c ci = (Some NodeUnpinFailed, ci\<lparr>ipfs := ipfs ci @ [c]\<rparr>)"
  by (cases "RefCount (ps ci) c") (simp add: unpinStaged_def Let_def)

lemma unpinStaged_remove_fails:
  "fst (RefCount (ps ci) c) = snd (RefCount (ps ci) c) \<Longrightarrow> rm_ok g c \<Longrightarrow>
   RemoveStaged (store_env g c) c (ps ci) = (Some e, st) \<Longrightarrow>
   unpinStaged g c ci = (Some (RemovingStaged c e), ci\<lparr>ipfs := ipfs ci @ [c], ps := st\<rparr>)"
  by (cases "RefCount (ps ci) c") (simp add: unpinStaged_def Let_def)

lemma unpinStaged_ok_iff:
  "fst (unpinStaged g c ci) = None \<longleftrightarrow>
   fst (RefCount (ps ci) c) = snd (RefCount (ps ci) c) \<and> rm_ok g c \<and>
   fst (RemoveStaged (store_env g c) c (ps ci)) = None"
  by (cases "RefCount (ps ci) c")
    (auto simp: unpinStaged_def Let_def split: prod.splits option.splits)

text \<open>
  Claim C2, amended. When the call of unpinStaged for a candidate returns an error (the
  counts of RefCount differ, the node refuses the unpin, or RemoveStaged fails) and the
  calls for the candidates before it returned none, GCStaged returns the nil list
  together with that error, in the state that failing call left: the candidates before
  it stay collected and the ones after it are not visited. Conversely every error of
  GCStaged arises so, and with it the list is always nil. unpinStaged returns no error
  exactly when the counts agree, the node unpins and RemoveStaged succeeds.
\<close>

theorem GCStaged_error_returns_nil:
  "(\<forall>lst e ci'. GCStaged g ex t ci = ((lst, Some e), ci') \<longleftrightarrow>
      lst = [] \<and>
      (\<exists>err k sts. e = UnpinningCid err \<and> k < length (fst (getGCCandidates g ex t ci)) \<and>
         length sts = Suc k \<and> sts ! 0 = ci \<and>
         (\<forall>i < k. unpinStaged g (fst (getGCCandidates g ex t ci) ! i) (sts ! i) = (None, sts ! Suc i)) \<and>
         unpinStaged g (fst (getGCCandidates g ex t ci) ! k) (sts ! k) = (Some err, ci'))) \<and>
   (snd (fst (GCStaged g ex t ci)) \<noteq> None \<longrightarrow> fst (fst (GCStaged g ex t ci)) = []) \<and>
   (\<forall>c (c0::CoreIpfs). fst (RefCount (ps c0) c) \<noteq> snd (RefCount (ps c0) c) \<longrightarrow>
      unpinStaged g c c0 =
        (Some (NotOnlyStagePins c (fst (RefCount (ps c0) c)) (snd (RefCount (ps c0) c))), c0)) \<and>
   (\<forall>c (c0::CoreIpfs). fst (RefCount (ps c0) c) = snd (RefCount (ps c0) c) \<and> \<not> rm_ok g c \<longrightarrow>
      unpinStaged g c c0 = (Some NodeUnpinFailed, c0\<lparr>ipfs := ipfs c0 @ [c]\<rparr>)) \<and>
   (\<forall>c (c0::CoreIpfs) e st.
      fst (RefCount (ps c0) c) = snd (RefCount (ps c0) c) \<and> rm_ok g c \<and>
      RemoveStaged (store_env g c) c (ps c0) = (Some e, st) \<longrightarrow>
      unpinStaged g c c0 = (Some (RemovingStaged c e), c0\<lparr>ipfs := ipfs c0 @ [c], ps := st\<rparr>)) \<and>
   (\<forall>c (c0::CoreIpfs). fst (unpinStaged g c c0) = None \<longleftrightarrow>
      fst (RefCount (ps c0) c) = snd (RefCount (ps c0) c) \<and> rm_ok g c \<and>
      fst (RemoveStaged (store_env g c) c (ps c0)) = None)"
proof -
  let ?cands = "fst (getGCCandidates g ex t ci)"
  have 1: "\<forall>lst e ci'. GCStaged g ex t ci = ((lst, Some e), ci') \<longleftrightarrow>
      lst = [] \<and>
      (\<exists>err k sts. e = UnpinningCid err \<and> k < length ?cands \<and> length sts = Suc k \<and> sts ! 0 = ci \<and>
         (\<forall>i < k. unpinStaged g (?cands ! i) (sts ! i) = (None, sts ! Suc i)) \<and>
         unpinStaged g (?cands ! k) (sts ! k) = (Some err, ci'))"
    unfolding GCStaged_err_iff unpin_all_err_iff by blast
  have 2: "snd (fst (GCStaged g ex t ci)) \<noteq> None \<longrightarrow> fst (fst (GCStaged g ex t ci)) = []"
    by (simp add: GCStaged_eq split: prod.splits option.splits)
  have 3: "\<forall>c (c0::CoreIpfs). fst (RefCount (ps c0) c) \<noteq> snd (RefCount (ps c0) c) \<longrightarrow>
      unpinStaged g c c0 =
        (Some (NotOnlyStagePins c (fst (RefCount (ps c0) c)) (snd (RefCount (ps c0) c))), c0)"
    by (simp add: unpinStaged_mismatch)
  have 4: "\<forall>c (c0::CoreIpfs). fst (RefCount (ps c0) c) = snd (RefCount (ps c0) c) \<and> \<not> rm_ok g c \<longrightarrow>
      unpinStaged g c c0 = (Some NodeUnpinFailed, c0\<lparr>ipfs := ipfs c0 @ [c]\<rparr>)"
    by (simp add: unpinStaged_node_fails)
  have 5: "\<forall>c (c0::CoreIpfs) e st.
      fst (RefCount (ps c0) c) = snd (RefCount (ps c0) c) \<and> rm_ok g c \<and>
      RemoveStaged (store_env g c) c (ps c0) = (Some e, st) \<longrightarrow>
      unpinStaged g c c0 = (Some (RemovingStaged c e), c0\<lparr>ipfs := ipfs c0 @ [c], ps := st\<rparr>)"
    by (simp add: unpinStaged_remove_fails)
  have 6: "\<forall>c (c0::CoreIpfs). fst (unpinStaged g c c0) = None \<longleftrightarrow>
      fst (RefCount (ps c0) c) = snd (RefCount (ps c0) c) \<and> rm_ok g c \<and>
      fst (RemoveStaged (store_env g c) c (ps c0)) = None"
    by (simp add: unpinStaged_ok_iff)
  from 1 2 3 4 5 6 show ?thesis by (intro conjI)
qed

theorem GCStaged_error_returns_nil_witness:
  "fst (getGCCandidates (gc_rm_fails [''c1'', ''c2''] ''c2'') [] 5 ci_2) = [''c1'', ''c2''] \<and>
   fst (unpinStaged (gc_rm_fails [''c1'', ''c2''] ''c2'') ''c1'' ci_2) = None \<and>
   fst (unpinStaged (gc_rm_fails [''c1'', ''c2''] ''c2'') ''c2''
          (snd (unpinStaged (gc_rm_fails [''c1'', ''c2''] ''c2'') ''c1'' ci_2))) = Some NodeUnpinFailed \<and>
   GCStaged (gc_rm_fails [''c1'', ''c2''] ''c2'') [] 5 ci_2 =
     (([], Some (UnpinningCid NodeUnpinFailed)),
      snd (unpinStaged (gc_rm_fails [''c1'', ''c2''] ''c2'') ''c2''
             (snd (unpinStaged (gc_rm_fails [''c1'', ''c2''] ''c2'') ''c1'' ci_2)))) \<and>
   fst (getGCCandidates (gc_delete_fails [''c1'', ''c2''] ''c2'') [] 5 ci_2) = [''c1'', ''c2''] \<and>
   fst (unpinStaged (gc_delete_fails [''c1'', ''c2''] ''c2'') ''c1'' ci_2) = None \<and>
   fst (unpinStaged (gc_delete_fails [''c1'', ''c2''] ''c2'') ''c2''
          (snd (unpinStaged (gc_delete_fails [''c1'', ''c2''] ''c2'') ''c1'' ci_2))) =
     Some (RemovingStaged ''c2'' DeleteFailed) \<and>
   GCStaged (gc_delete_fails [''c1'', ''c2''] ''c2'') [] 5 ci_2 =
     (([], Some (UnpinningCid (RemovingStaged ''c2'' DeleteFailed))),
      snd (unpinStaged (gc_delete_fails [''c1'', ''c2''] ''c2'') ''c2''
             (snd (unpinStaged (gc_delete_fails [''c1'', ''c2''] ''c2'') ''c1'' ci_2)))) \<and>
   RefCount st_AB ''c'' = (2, 1) \<and>
   unpinStaged (gc_ok [''c'']) ''c'' \<lparr>ps = st_AB, ipfs = []\<rparr> =
     (Some (NotOnlyStagePins ''c'' 2 1), \<lparr>ps = st_AB, ipfs = []\<rparr>)"
proof -
  let ?n = "gc_rm_fails [''c1'', ''c2''] ''c2''"
  let ?d = "gc_delete_fails [''c1'', ''c2''] ''c2''"
  let ?n1 = "snd (unpinStaged ?n ''c1'' ci_2)"
  let ?n2 = "snd (unpinStaged ?n ''c2'' ?n1)"
  let ?d1 = "snd (unpinStaged ?d ''c1'' ci_2)"
  let ?d2 = "snd (unpinStaged ?d ''c2'' ?d1)"
  note tn = GCStaged_error_returns_nil[of ?n "[]" 5 ci_2]
  note td = GCStaged_error_returns_nil[of ?d "[]" 5 ci_2]
  note tm = GCStaged_error_returns_nil[of "gc_ok [''c'']" "[]" 5 ci_2]
  have cn: "fst (getGCCandidates ?n [] 5 ci_2) = [''c1'', ''c2'']" by code_simp
  have n1: "fst (unpinStaged ?n ''c1'' ci_2) = None" by code_simp
  have n2: "fst (unpinStaged ?n ''c2'' ?n1) = Some NodeUnpinFailed" by code_simp
  have chn: "\<exists>err k sts. UnpinningCid NodeUnpinFailed = UnpinningCid err \<and> k < length [''c1'', ''c2''] \<and>
         length sts = Suc k \<and> sts ! 0 = ci_2 \<and>
         (\<forall>i < k. unpinStaged ?n ([''c1'', ''c2''] ! i) (sts ! i) = (None, sts ! Suc i)) \<and>
         unpinStaged ?n ([''c1'', ''c2''] ! k) (sts ! k) = (Some err, ?n2)"
    using n1 n2
    by (intro exI[of _ NodeUnpinFailed] exI[of _ 1] exI[of _ "[ci_2, ?n1]"]) (simp add: prod_eq_iff)
  note kn = tn[THEN conjunct1, THEN spec, of "[]", THEN spec, of "UnpinningCid NodeUnpinFailed",
      THEN spec, of ?n2]
  from kn chn cn have gn: "GCStaged ?n [] 5 ci_2 = (([], Some (UnpinningCid NodeUnpinFailed)), ?n2)"
    by simp
  have cd: "fst (getGCCandidates ?d [] 5 ci_2) = [''c1'', ''c2'']" by code_simp
  have d1: "fst (unpinStaged ?d ''c1'' ci_2) = None" by code_simp
  have d2: "fst (unpinStaged ?d ''c2'' ?d1) = Some (RemovingStaged ''c2'' DeleteFailed)" by code_simp
  have chd: "\<exists>err k sts. UnpinningCid (RemovingStaged ''c2'' DeleteFailed) = UnpinningCid err \<and>
         k < length [''c1'', ''c2''] \<and> length sts = Suc k \<and> sts ! 0 = ci_2 \<and>
         (\<forall>i < k. unpinStaged ?d ([''c1'', ''c2''] ! i) (sts ! i) = (None, sts ! Suc i)) \<and>
         unpinStaged ?d ([''c1'', ''c2''] ! k) (sts ! k) = (Some err, ?d2)"
    using d1 d2
    by (intro exI[of _ "RemovingStaged ''c2'' DeleteFailed"] exI[of _ 1] exI[of _ "[ci_2, ?d1]"])
      (simp add: prod_eq_iff)
  note kd = td[THEN conjunct1, THEN spec, of "[]", THEN spec,
      of "UnpinningCid (RemovingStaged ''c2'' DeleteFailed)", THEN spec, of ?d2]
  from kd chd cd
  have gd: "GCStaged ?d [] 5 ci_2 = (([], Some (UnpinningCid (RemovingStaged ''c2'' DeleteFailed))), ?d2)"
    by simp
  have rc: "RefCount st_AB ''c'' = (2, 1)" by code_simp
  note t3 = tm[THEN conjunct2, THEN conjunct2, THEN conjunct1]
  from t3 rc have m: "unpinStaged (gc_ok [''c'']) ''c'' \<lparr>ps = st_AB, ipfs = []\<rparr> =
     (Some (NotOnlyStagePins ''c'' 2 1), \<lparr>ps = st_AB, ipfs = []\<rparr>)"
    by simp
  from cn n1 n2 gn cd d1 d2 gd rc m show ?thesis by (intro conjI)
qed

text \<open>
  Claim C5. With c1 and c2 staged by one tenant at the same time, before the cutoff,
  GCStaged excluding c1 should reclaim c2 only, and a following GCStaged with no
  exclusion should reclaim c1 only. The first call returns c2. RemoveStaged leaves the
  entry of c2 in the cache, so c2 is a candidate of the second call again: when the
  node and the datastore accept the repeated requests the second call returns c1 and
  c2 (in the order of the range over the cache), and when the node refuses to unpin c2
  a second time it returns the nil list and an error.
\<close>

theorem GCStaged_reclaims_purged_cid_again:
  "fst (GCStaged (gc_ok [''c1'', ''c2'']) [''c1''] 5 ci_2) = ([''c2''], None) \<and>
   fst (GCStaged (gc_ok [''c1'', ''c2'']) [] 5
          (snd (GCStaged (gc_ok [''c1'', ''c2'']) [''c1''] 5 ci_2))) = ([''c1'', ''c2''], None) \<and>
   fst (GCStaged (gc_ok [''c2'', ''c1'']) [] 5
          (snd (GCStaged (gc_ok [''c1'', ''c2'']) [''c1''] 5 ci_2))) = ([''c2'', ''c1''], None) \<and>
   fst (GCStaged (gc_rm_fails [''c1'', ''c2''] ''c2'') [] 5
          (snd (GCStaged (gc_ok [''c1'', ''c2'']) [''c1''] 5 ci_2))) =
     ([], Some (UnpinningCid NodeUnpinFailed))"
  by code_simp

end
